theory Spec2Isabelle
  imports Main "HOL-Library.Word" "HOL-Library.Stream"
begin

unbundle bit_operations_syntax

section \<open>Embedding of ntt.py\<close>

subsection \<open>Exceptions and the entropy source\<close>

text \<open>
  The two \<^verbatim>\<open>raise Exception(...)\<close> statements of ntt.py are the first two constructors
  (named as in the specification); the other three are the built-in exceptions that list
  indexing, three-argument \<^verbatim>\<open>pow\<close> and \<^verbatim>\<open>%\<close> can raise.
\<close>

datatype error =
    InvalidRangeError
  | RootNotFoundError
  | IndexError
  | ValueError
  | ZeroDivisionError

text \<open>
  \<^verbatim>\<open>os.urandom\<close> is the only source of randomness.  Its outcome is an infinite stream of
  bytes that is threaded through the functions that draw from it: a call
  \<^verbatim>\<open>os.urandom(k)\<close> takes the next \<open>k\<close> bytes.
\<close>

type_synonym entropy = "8 word stream"

definition urandom :: "nat \<Rightarrow> entropy \<Rightarrow> 8 word list \<times> entropy" where
  "urandom k es = (stake k es, sdrop k es)"

text \<open>\<^verbatim>\<open>int.from_bytes(bs, byteorder="little")\<close>\<close>

definition from_bytes_little :: "8 word list \<Rightarrow> int" where
  "from_bytes_little bs = foldr (\<lambda>b acc. uint b + 256 * acc) bs 0"

text \<open>A \<^verbatim>\<open>for\<close> loop whose body may raise: the first error stops the loop.\<close>

fun efold :: "('a \<Rightarrow> 's \<Rightarrow> 'e + 's) \<Rightarrow> 'a list \<Rightarrow> 's \<Rightarrow> 'e + 's" where
  "efold f [] s = Inr s"
| "efold f (x # xs) s = (case f x s of Inl e \<Rightarrow> Inl e | Inr s' \<Rightarrow> efold f xs s')"

subsection \<open>secure\_next\_int\<close>

text \<open>\<^verbatim>\<open>int.bit_length()\<close> of a non-negative integer.\<close>

fun bit_length :: "nat \<Rightarrow> nat" where
  "bit_length n = (if n = 0 then 0 else Suc (bit_length (n div 2)))"

declare bit_length.simps [simp del]

text \<open>
  \<^verbatim>\<open>int(math.log(x, 2))\<close> for \<open>x \<ge> 1\<close>: the integer part of the binary logarithm.  The
  argument in ntt.py is always a multiple of 8; the floating-point quotient that CPython
  computes is taken to round to the same integer part.
\<close>

definition int_log2 :: "nat \<Rightarrow> nat" where
  "int_log2 x = bit_length x - 1"

text \<open>\<^verbatim>\<open>numSize = (i_range.bit_length() + 7) // 8\<close>\<close>

definition num_size :: "int \<Rightarrow> nat" where
  "num_size i_range = (bit_length (nat i_range) + 7) div 8"

text \<open>
  Lines 35 to 39: \<^verbatim>\<open>mask = i_range\<close>, then for \<open>i\<close> in \<^verbatim>\<open>range(iter)\<close>
  \<^verbatim>\<open>mask |= mask >> pow(2, i)\<close>.
\<close>

definition build_mask :: "int \<Rightarrow> int" where
  "build_mask i_range =
     (let numSize = num_size i_range;
          iter = int_log2 (numSize * 8)
      in fold (\<lambda>i msk. msk OR drop_bit (2 ^ i) msk) [0..<iter] i_range)"

text \<open>
  Lines 41 to 43, the rejection loop \<^verbatim>\<open>while True\<close>.  It has no bound, so it is a partial
  function: \<open>None\<close> is the run that never leaves the loop.
\<close>

partial_function (option) draw_loop ::
  "nat \<Rightarrow> int \<Rightarrow> int \<Rightarrow> entropy \<Rightarrow> (int \<times> entropy) option" where
  "draw_loop numSize msk i_range es =
     (let result = from_bytes_little (fst (urandom numSize es)) AND msk
      in if result \<le> i_range then Some (result, snd (urandom numSize es))
         else draw_loop numSize msk i_range (snd (urandom numSize es)))"

declare draw_loop.simps [code]

definition secure_next_int ::
  "int \<Rightarrow> int \<Rightarrow> entropy \<Rightarrow> ((error + int) \<times> entropy) option" where
  "secure_next_int mn mx es =
     (if mn = mx then Some (Inr mn, es)
      else if mn > mx then Some (Inl InvalidRangeError, es)
      else
        let i_range = mx - mn in
        if i_range = 0 then Some (Inr mn, es)
        else
          let msk = build_mask i_range;
              numSize = num_size i_range
          in (case draw_loop numSize msk i_range es of
                None \<Rightarrow> None
              | Some (result, es') \<Rightarrow> Some (Inr (result + mn), es')))"

subsection \<open>Three-argument pow\<close>

text \<open>
  \<^verbatim>\<open>pow(b, -1, q)\<close> for \<open>q \<noteq> 0\<close>: the inverse of \<open>b\<close> modulo \<open>q\<close> in the residue range of
  \<open>q\<close> (which is \<open>[0, q)\<close> for a positive modulus and \<open>(q, 0]\<close> for a negative one), if there
  is one.  Python finds it with the extended Euclidean algorithm; here it is found by search.
\<close>

definition inv_mod :: "int \<Rightarrow> int \<Rightarrow> int option" where
  "inv_mod b q =
     find (\<lambda>x. (b * x) mod q = 1 mod q) (if 0 < q then [0..q - 1] else [q + 1..0])"

text \<open>\<^verbatim>\<open>pow(b, e, q)\<close> on integers.\<close>

definition pow_mod :: "int \<Rightarrow> int \<Rightarrow> int \<Rightarrow> error + int" where
  "pow_mod b e q =
     (if q = 0 then Inl ValueError
      else if 0 \<le> e then Inr (b ^ nat e mod q)
      else (case inv_mod b q of
              None \<Rightarrow> Inl ValueError
            | Some c \<Rightarrow> Inr (c ^ nat (- e) mod q)))"

subsection \<open>get\_prim\_root\<close>

text \<open>
  The loop \<^verbatim>\<open>for _ in range(tries)\<close> of lines 77 to 82; the first argument counts the
  iterations that are left, \<open>n\<close> is the doubled degree of line 73.
\<close>

fun prim_root_loop ::
  "nat \<Rightarrow> int \<Rightarrow> int \<Rightarrow> int \<Rightarrow> entropy \<Rightarrow> ((error + int) \<times> entropy) option" where
  "prim_root_loop 0 n q r es = Some (Inl RootNotFoundError, es)"
| "prim_root_loop (Suc tries) n q r es =
     (case secure_next_int 2 (q - 1) es of
        None \<Rightarrow> None
      | Some (Inl e, es') \<Rightarrow> Some (Inl e, es')
      | Some (Inr uri, es') \<Rightarrow>
          (case pow_mod uri r q of
             Inl e \<Rightarrow> Some (Inl e, es')
           | Inr candidate \<Rightarrow>
               (case pow_mod candidate (n div 2) q of
                  Inl e \<Rightarrow> Some (Inl e, es')
                | Inr v \<Rightarrow>
                    if v = q - 1 then Some (Inr candidate, es')
                    else prim_root_loop tries n q r es')))"

definition get_prim_root ::
  "int \<Rightarrow> int \<Rightarrow> int option \<Rightarrow> entropy \<Rightarrow> ((error + int) \<times> entropy) option" where
  "get_prim_root n0 q r0 es =
     (let n = 2 * n0 in
      case r0 of
        None \<Rightarrow>
          if n = 0 then Some (Inl ZeroDivisionError, es)
          else prim_root_loop 50 n q ((q - 1) div n) es
      | Some r \<Rightarrow> prim_root_loop 50 n q r es)"

subsection \<open>bit\_reverse\_order\<close>

definition bin_digit :: "nat \<Rightarrow> char" where
  "bin_digit d = (if d = 0 then CHR ''0'' else CHR ''1'')"

text \<open>The digits of \<^verbatim>\<open>bin(n)\<close>, most significant first, without the prefix.\<close>

fun bin_str :: "nat \<Rightarrow> string" where
  "bin_str n = (if n < 2 then [bin_digit n] else bin_str (n div 2) @ [bin_digit (n mod 2)])"

declare bin_str.simps [simp del]

definition py_bin :: "int \<Rightarrow> string" where
  "py_bin x = (if x < 0 then ''-0b'' @ bin_str (nat (- x)) else ''0b'' @ bin_str (nat x))"

text \<open>\<^verbatim>\<open>s.zfill(w)\<close> for a string without sign.\<close>

definition zfill :: "nat \<Rightarrow> string \<Rightarrow> string" where
  "zfill w s = replicate (w - length s) CHR ''0'' @ s"

text \<open>\<^verbatim>\<open>int(s, 2)\<close> for a non-empty string of binary digits.\<close>

definition int_base2 :: "string \<Rightarrow> nat" where
  "int_base2 s = foldl (\<lambda>acc c. 2 * acc + (if c = CHR ''1'' then 1 else 0)) 0 s"

text \<open>Line 193: \<^verbatim>\<open>int(bin(i)[2:].zfill(num_bits)[::-1], 2)\<close>\<close>

definition rev_index :: "nat \<Rightarrow> nat \<Rightarrow> nat" where
  "rev_index num_bits i = int_base2 (rev (zfill num_bits (drop 2 (py_bin (int i)))))"

text \<open>Line 190: \<^verbatim>\<open>len(bin(len(a) - 1)) - 2\<close>\<close>

definition num_bits_of :: "nat \<Rightarrow> nat" where
  "num_bits_of len = length (py_bin (int len - 1)) - 2"

text \<open>
  The assignment \<^verbatim>\<open>result[rev_index] = a[i]\<close> raises \<^verbatim>\<open>IndexError\<close> when the reversed index
  is not an index of \<open>result\<close>.
\<close>

definition bit_reverse_step :: "'a list \<Rightarrow> nat \<Rightarrow> nat \<Rightarrow> 'a list \<Rightarrow> error + 'a list" where
  "bit_reverse_step a num_bits i result =
     (let ri = rev_index num_bits i
      in if ri < length result then Inr (result[ri := a ! i]) else Inl IndexError)"

definition bit_reverse_order :: "'a::zero list \<Rightarrow> error + 'a list" where
  "bit_reverse_order a =
     (let num_bits = num_bits_of (length a);
          result = replicate (length a) 0
      in efold (bit_reverse_step a num_bits) [0..<length a] result)"

subsection \<open>The store\<close>

text \<open>
  Python lists are mutable objects that variables refer to.  The transforms copy their
  argument and update the copy in place, so they are modelled over a store of lists: a
  reference is an index into the store, and a new list is put at its end.
\<close>

type_synonym ref = nat
type_synonym heap = "int list list"

subsection \<open>speedup\_FNTT\<close>

text \<open>Lines 118 to 121, the body of the innermost loop, on the list that \<open>A\<close> refers to.\<close>

definition ct_butterfly ::
  "int \<Rightarrow> int \<Rightarrow> nat \<Rightarrow> ref \<Rightarrow> nat \<Rightarrow> heap \<Rightarrow> (error \<times> heap) + heap" where
  "ct_butterfly q S t A j h =
     (if length (h ! A) \<le> j \<or> length (h ! A) \<le> j + t then Inl (IndexError, h)
      else if q = 0 then Inl (ZeroDivisionError, h)
      else
        let U = h ! A ! j;
            V = h ! A ! (j + t) * S;
            h1 = h[A := (h ! A)[j := (U + V) mod q]]
        in Inr (h1[A := (h1 ! A)[j + t := (U - V) mod q]]))"

text \<open>
  Lines 114 to 121, the body of \<^verbatim>\<open>for i in range(m)\<close>.  The range
  \<^verbatim>\<open>range(j_1, j_2 + 1)\<close> with \<open>j_2 = j_1 + t - 1\<close> is \<open>[j_1..<j_1 + t]\<close>.
\<close>

definition fntt_group ::
  "int \<Rightarrow> ref \<Rightarrow> ref \<Rightarrow> nat \<Rightarrow> nat \<Rightarrow> nat \<Rightarrow> heap \<Rightarrow> (error \<times> heap) + heap" where
  "fntt_group q psi_table_rev A m t i h =
     (let j_1 = 2 * i * t in
      if length (h ! psi_table_rev) \<le> m + i then Inl (IndexError, h)
      else efold (ct_butterfly q (h ! psi_table_rev ! (m + i)) t A) [j_1..<j_1 + t] h)"

text \<open>
  Lines 111 to 122, the loop \<^verbatim>\<open>while m < n\<close>.  The variable \<open>m\<close> starts at 1 and is only
  doubled, so \<open>0 < m\<close> holds whenever the test is made; the conjunct is there for the
  recursion to be well-founded at every argument.
\<close>

function fntt_while ::
  "nat \<Rightarrow> int \<Rightarrow> ref \<Rightarrow> ref \<Rightarrow> nat \<Rightarrow> nat \<Rightarrow> heap \<Rightarrow> (error \<times> heap) + heap" where
  "fntt_while n q psi_table_rev A t m h =
     (if 0 < m \<and> m < n then
        (case efold (fntt_group q psi_table_rev A m (t div 2)) [0..<m] h of
           Inl e \<Rightarrow> Inl e
         | Inr h' \<Rightarrow> fntt_while n q psi_table_rev A (t div 2) (2 * m) h')
      else Inr h)"
  by pat_completeness auto
termination
  by (relation "measure (\<lambda>(n, q, tb, A, t, m, h). n - m)") auto

declare fntt_while.simps [simp del]

text \<open>
  The list comprehension of line 109 allocates the copy; the result is the reference to it
  together with the store after the call.
\<close>

definition speedup_FNTT ::
  "heap \<Rightarrow> ref \<Rightarrow> int \<Rightarrow> ref \<Rightarrow> (error \<times> heap) + (ref \<times> heap)" where
  "speedup_FNTT h a q psi_table_rev =
     (let n = length (h ! a);
          t = n;
          A = length h;
          h0 = h @ [h ! a]
      in case fntt_while n q psi_table_rev A t 1 h0 of
           Inl e \<Rightarrow> Inl e
         | Inr h' \<Rightarrow> Inr (A, h'))"

subsection \<open>speedup\_INTT\<close>

text \<open>Lines 158 to 161.\<close>

definition gs_butterfly ::
  "int \<Rightarrow> int \<Rightarrow> nat \<Rightarrow> ref \<Rightarrow> nat \<Rightarrow> heap \<Rightarrow> (error \<times> heap) + heap" where
  "gs_butterfly q S t A j h =
     (if length (h ! A) \<le> j \<or> length (h ! A) \<le> j + t then Inl (IndexError, h)
      else if q = 0 then Inl (ZeroDivisionError, h)
      else
        let U = h ! A ! j;
            V = h ! A ! (j + t);
            h1 = h[A := (h ! A)[j := (U + V) mod q]]
        in Inr (h1[A := (h1 ! A)[j + t := ((U - V) * S) mod q]]))"

text \<open>
  Lines 155 to 162, the body of \<^verbatim>\<open>for i in range(h)\<close>; the running variable \<open>j_1\<close> is part
  of the loop state.  The half length \<open>h\<close> of the source is \<open>hm\<close> here.
\<close>

definition intt_group ::
  "int \<Rightarrow> ref \<Rightarrow> ref \<Rightarrow> nat \<Rightarrow> nat \<Rightarrow> nat \<Rightarrow> nat \<times> heap \<Rightarrow> (error \<times> heap) + nat \<times> heap" where
  "intt_group q psi_inv_table_rev A hm t i st =
     (let j_1 = fst st; h = snd st in
      if length (h ! psi_inv_table_rev) \<le> hm + i then Inl (IndexError, h)
      else
        (case efold (gs_butterfly q (h ! psi_inv_table_rev ! (hm + i)) t A) [j_1..<j_1 + t] h of
           Inl e \<Rightarrow> Inl e
         | Inr h' \<Rightarrow> Inr (j_1 + 2 * t, h')))"

text \<open>Lines 151 to 164, the loop \<^verbatim>\<open>while m > 1\<close>.\<close>

function intt_while ::
  "int \<Rightarrow> ref \<Rightarrow> ref \<Rightarrow> nat \<Rightarrow> nat \<Rightarrow> heap \<Rightarrow> (error \<times> heap) + heap" where
  "intt_while q psi_inv_table_rev A t m h =
     (if 1 < m then
        (case efold (intt_group q psi_inv_table_rev A (m div 2) t) [0..<m div 2] (0, h) of
           Inl e \<Rightarrow> Inl e
         | Inr st \<Rightarrow> intt_while q psi_inv_table_rev A (2 * t) (m div 2) (snd st))
      else Inr h)"
  by pat_completeness auto
termination
  by (relation "measure (\<lambda>(q, tb, A, t, m, h). m)") auto

declare intt_while.simps [simp del]

text \<open>Lines 166 and 167: every entry is multiplied by the inverse of \<open>n\<close>.\<close>

definition intt_scale :: "int \<Rightarrow> int \<Rightarrow> ref \<Rightarrow> nat \<Rightarrow> heap \<Rightarrow> (error \<times> heap) + heap" where
  "intt_scale q n_inv A j h =
     (if length (h ! A) \<le> j then Inl (IndexError, h)
      else if q = 0 then Inl (ZeroDivisionError, h)
      else Inr (h[A := (h ! A)[j := (h ! A ! j * n_inv) mod q]]))"

definition speedup_INTT ::
  "heap \<Rightarrow> ref \<Rightarrow> int \<Rightarrow> ref \<Rightarrow> (error \<times> heap) + (ref \<times> heap)" where
  "speedup_INTT h a q psi_inv_table_rev =
     (let n = length (h ! a);
          A = length h;
          h0 = h @ [h ! a]
      in case intt_while q psi_inv_table_rev A 1 n h0 of
           Inl e \<Rightarrow> Inl e
         | Inr h1 \<Rightarrow>
             (case pow_mod (int n) (- 1) q of
                Inl e \<Rightarrow> Inl (e, h1)
              | Inr n_inv \<Rightarrow>
                  (case efold (intt_scale q n_inv A) [0..<n] h1 of
                     Inl e \<Rightarrow> Inl e
                   | Inr h2 \<Rightarrow> Inr (A, h2))))"

section \<open>Embedding of usage.py\<close>

text \<open>
  Lines 14 to 18 fill the table of powers: \<^verbatim>\<open>table = [1] * n\<close> and, for \<open>i\<close> from 1,
  \<^verbatim>\<open>table[i] = (table[i-1] * psi) % q\<close>.  The script fills the table of \<open>psi\<close> and the table
  of its inverse in the same loop.
\<close>

definition power_table :: "nat \<Rightarrow> int \<Rightarrow> int \<Rightarrow> int list" where
  "power_table n x q =
     fold (\<lambda>i tb. tb[i := (tb ! (i - 1) * x) mod q]) [1..<n] (replicate n 1)"

text \<open>
  Lines 7 and 14 to 22, for any \<open>n\<close>, \<open>q\<close> and \<open>psi\<close>: the two tables in bit-reversed order.
  When \<^verbatim>\<open>pow(psi, -1, q)\<close> has returned, \<open>q\<close> is not 0 and \<^verbatim>\<open>%\<close> cannot raise.
\<close>

definition usage_tables :: "nat \<Rightarrow> int \<Rightarrow> int \<Rightarrow> error + (int list \<times> int list)" where
  "usage_tables n q psi =
     (case pow_mod psi (- 1) q of
        Inl e \<Rightarrow> Inl e
      | Inr psi_inv \<Rightarrow>
          (case bit_reverse_order (power_table n psi q) of
             Inl e \<Rightarrow> Inl e
           | Inr psi_table \<Rightarrow>
               (case bit_reverse_order (power_table n psi_inv q) of
                  Inl e \<Rightarrow> Inl e
                | Inr psi_inv_table \<Rightarrow> Inr (psi_table, psi_inv_table))))"

text \<open>Line 28: \<^verbatim>\<open>[(x*y) % q for x,y in zip(A,B)]\<close>\<close>

definition pointwise_mult :: "int list \<Rightarrow> int list \<Rightarrow> int \<Rightarrow> error + int list" where
  "pointwise_mult xs ys q =
     (if q = 0 \<and> xs \<noteq> [] \<and> ys \<noteq> [] then Inl ZeroDivisionError
      else Inr (map (\<lambda>(x, y). (x * y) mod q) (zip xs ys)))"

text \<open>
  Lines 25 to 30: both polynomials are transformed, multiplied entry by entry and
  transformed back.
\<close>

definition usage_multiply ::
  "heap \<Rightarrow> ref \<Rightarrow> ref \<Rightarrow> int \<Rightarrow> ref \<Rightarrow> ref \<Rightarrow> (error \<times> heap) + (ref \<times> heap)" where
  "usage_multiply h A B q psi_table psi_inv_table =
     (case speedup_FNTT h A q psi_table of
        Inl e \<Rightarrow> Inl e
      | Inr (A', h1) \<Rightarrow>
          (case speedup_FNTT h1 B q psi_table of
             Inl e \<Rightarrow> Inl e
           | Inr (B', h2) \<Rightarrow>
               (case pointwise_mult (h2 ! A') (h2 ! B') q of
                  Inl e \<Rightarrow> Inl (e, h2)
                | Inr ab \<Rightarrow> speedup_INTT (h2 @ [ab]) (length h2) q psi_inv_table)))"

section \<open>Notions used to state the properties\<close>

subsection \<open>Draws of the rejection loop\<close>

text \<open>
  The \<open>k\<close>-th draw of the rejection loop for a span \<open>i_range\<close> reads the bytes from position
  \<open>k * numSize\<close> of the entropy; it is accepted when its masked value is at most the span.
\<close>

definition draw_accepted :: "int \<Rightarrow> entropy \<Rightarrow> nat \<Rightarrow> bool" where
  "draw_accepted i_range es k \<longleftrightarrow>
     from_bytes_little (stake (num_size i_range) (sdrop (k * num_size i_range) es))
       AND build_mask i_range \<le> i_range"

subsection \<open>Attempts of the root search\<close>

text \<open>
  The exponent \<open>r\<close> that a call uses (the default is \<open>(q - 1) // (2 * n)\<close>), the candidate
  \<open>x ^ r mod q\<close> made from a drawn \<open>x\<close>, the acceptance test \<open>candidate ^ n mod q = q - 1\<close>,
  and the first \<open>k\<close> values that successive calls \<^verbatim>\<open>secure_next_int(2, q - 1)\<close> return
  (\<open>None\<close> when one of them raises or does not return).
\<close>

definition root_exponent :: "int \<Rightarrow> int \<Rightarrow> int option \<Rightarrow> int" where
  "root_exponent n q r0 = (case r0 of None \<Rightarrow> (q - 1) div (2 * n) | Some r \<Rightarrow> r)"

definition candidate_of :: "int \<Rightarrow> int \<Rightarrow> int \<Rightarrow> int" where
  "candidate_of q r x = x ^ nat r mod q"

definition accepted :: "int \<Rightarrow> int \<Rightarrow> int \<Rightarrow> bool" where
  "accepted n q c \<longleftrightarrow> c ^ nat n mod q = q - 1"

fun uri_draws :: "nat \<Rightarrow> int \<Rightarrow> entropy \<Rightarrow> (int list \<times> entropy) option" where
  "uri_draws 0 q es = Some ([], es)"
| "uri_draws (Suc k) q es =
     (case secure_next_int 2 (q - 1) es of
        Some (Inr x, es') \<Rightarrow>
          (case uri_draws k q es' of
             Some (xs, es'') \<Rightarrow> Some (x # xs, es'')
           | None \<Rightarrow> None)
      | _ \<Rightarrow> None)"

subsection \<open>Bit reversal\<close>

text \<open>
  The number whose \<open>k\<close>-bit pattern is the pattern of \<open>i\<close> read backwards: bit \<open>j\<close> of \<open>i\<close>
  becomes bit \<open>k - 1 - j\<close>.
\<close>

definition reverse_bits :: "nat \<Rightarrow> nat \<Rightarrow> nat" where
  "reverse_bits k i = (\<Sum>j<k. of_bool (bit i j) * 2 ^ (k - 1 - j))"

subsection \<open>Frames\<close>

text \<open>
  A run changes at most the list at \<open>A\<close>: the store keeps its size and every other list.
  The store in which a loop ends, whether it raised or not, is its \<open>final_heap\<close>.
\<close>

definition only_changes :: "ref \<Rightarrow> heap \<Rightarrow> heap \<Rightarrow> bool" where
  "only_changes A h h' \<longleftrightarrow> length h' = length h \<and> (\<forall>p. p \<noteq> A \<longrightarrow> h' ! p = h ! p)"

definition final_heap :: "('s \<Rightarrow> heap) \<Rightarrow> (error \<times> heap) + 's \<Rightarrow> heap" where
  "final_heap g res = (case res of Inl eh \<Rightarrow> snd eh | Inr s \<Rightarrow> g s)"

subsection \<open>The transforms as functions on lists\<close>

text \<open>
  What a run of butterflies does to the list it works on.  \<open>pair_upd\<close> is the list after the
  first \<open>k\<close> butterflies of the group that starts at \<open>j1\<close>; \<open>stage_upto\<close> is the list after
  the first \<open>i\<close> groups of a stage and \<open>butterfly_stage\<close> the list after all of them;
  \<open>ct_stages\<close> and \<open>gs_stages\<close> run the remaining \<open>s\<close> stages of the forward and of the inverse
  transform.
\<close>

definition pair_upd ::
  "(int \<Rightarrow> int \<Rightarrow> int) \<Rightarrow> (int \<Rightarrow> int \<Rightarrow> int) \<Rightarrow> nat \<Rightarrow> nat \<Rightarrow> nat \<Rightarrow> int list \<Rightarrow> int list" where
  "pair_upd F G t j1 k xs =
     map (\<lambda>x. if j1 \<le> x \<and> x < j1 + k then F (xs ! x) (xs ! (x + t))
              else if j1 + t \<le> x \<and> x < j1 + t + k then G (xs ! (x - t)) (xs ! x)
              else xs ! x) [0..<length xs]"

definition butterfly_stage ::
  "(nat \<Rightarrow> int \<Rightarrow> int \<Rightarrow> int) \<Rightarrow> (nat \<Rightarrow> int \<Rightarrow> int \<Rightarrow> int) \<Rightarrow> nat \<Rightarrow> int list \<Rightarrow> int list" where
  "butterfly_stage F G t xs =
     map (\<lambda>x. if x mod (2 * t) < t then F (x div (2 * t)) (xs ! x) (xs ! (x + t))
              else G (x div (2 * t)) (xs ! (x - t)) (xs ! x)) [0..<length xs]"

definition stage_upto ::
  "(nat \<Rightarrow> int \<Rightarrow> int \<Rightarrow> int) \<Rightarrow> (nat \<Rightarrow> int \<Rightarrow> int \<Rightarrow> int) \<Rightarrow> nat \<Rightarrow> nat \<Rightarrow> int list \<Rightarrow> int list" where
  "stage_upto F G t i xs =
     map (\<lambda>x. if x < 2 * t * i
                 then (if x mod (2 * t) < t then F (x div (2 * t)) (xs ! x) (xs ! (x + t))
                       else G (x div (2 * t)) (xs ! (x - t)) (xs ! x))
                 else xs ! x) [0..<length xs]"

definition ct_stage :: "int \<Rightarrow> int list \<Rightarrow> nat \<Rightarrow> nat \<Rightarrow> int list \<Rightarrow> int list" where
  "ct_stage q tbl m t =
     butterfly_stage (\<lambda>i u v. (u + v * tbl ! (m + i)) mod q)
                     (\<lambda>i u v. (u - v * tbl ! (m + i)) mod q) t"

definition gs_stage :: "int \<Rightarrow> int list \<Rightarrow> nat \<Rightarrow> nat \<Rightarrow> int list \<Rightarrow> int list" where
  "gs_stage q tbl hm t =
     butterfly_stage (\<lambda>i u v. (u + v) mod q)
                     (\<lambda>i u v. ((u - v) * tbl ! (hm + i)) mod q) t"

primrec ct_stages :: "int \<Rightarrow> int list \<Rightarrow> nat \<Rightarrow> nat \<Rightarrow> int list \<Rightarrow> int list" where
  "ct_stages q tbl 0 m xs = xs"
| "ct_stages q tbl (Suc s) m xs = ct_stages q tbl s (2 * m) (ct_stage q tbl m (2 ^ s) xs)"

primrec gs_stages :: "int \<Rightarrow> int list \<Rightarrow> nat \<Rightarrow> nat \<Rightarrow> int list \<Rightarrow> int list" where
  "gs_stages q tbl 0 t xs = xs"
| "gs_stages q tbl (Suc s) t xs = gs_stages q tbl s (2 * t) (gs_stage q tbl (2 ^ s) t xs)"

subsection \<open>Parameters\<close>

text \<open>
  Primality by trial division, a primitive \<open>N\<close>-th root of unity modulo \<open>q\<close> (its \<open>N\<close>-th power
  is 1 and no smaller positive power is), and lists of residues in \<open>[0, q)\<close>.
\<close>

definition is_prime :: "int \<Rightarrow> bool" where
  "is_prime p \<longleftrightarrow> 1 < p \<and> (\<forall>d\<in>{2..<p}. \<not> d dvd p)"

definition primitive_root :: "int \<Rightarrow> nat \<Rightarrow> int \<Rightarrow> bool" where
  "primitive_root psi N q \<longleftrightarrow> psi ^ N mod q = 1 \<and> (\<forall>j\<in>{1..<N}. psi ^ j mod q \<noteq> 1)"

definition residues :: "int \<Rightarrow> int list \<Rightarrow> bool" where
  "residues q xs \<longleftrightarrow> (\<forall>v\<in>set xs. 0 \<le> v \<and> v < q)"

subsection \<open>Negative-wrapped convolution\<close>

text \<open>
  The product of two polynomials of degree below \<open>n\<close> modulo \<open>x ^ n + 1\<close> and modulo \<open>q\<close>, computed
  coefficient by coefficient: the products whose exponents add up to \<open>k\<close> count positively,
  those whose exponents add up to \<open>k + n\<close> negatively.
\<close>

definition negacyclic_conv :: "int list \<Rightarrow> int list \<Rightarrow> int \<Rightarrow> int list" where
  "negacyclic_conv A B q =
     map (\<lambda>k. (\<Sum>i<length A. if i \<le> k then A ! i * B ! (k - i)
                               else - (A ! i * B ! (k + length A - i))) mod q)
         [0..<length A]"

subsection \<open>What a forward stage computes\<close>

text \<open>
  After the stages down to \<open>m\<close> blocks of length \<open>t\<close>, entry \<open>j\<close> of block \<open>i\<close> is, modulo \<open>q\<close>,
  the sum \<open>stride_eval\<close> of every \<open>t\<close>-th input from \<open>j\<close> on against the powers of the block's
  root; \<open>block_root\<close> reads that root from the table and \<open>stage_inv\<close> is this invariant.
\<close>

definition block_root :: "int list \<Rightarrow> nat \<Rightarrow> int" where
  "block_root T y = (if even y then T ! (y div 2) else - (T ! (y div 2)))"

definition stride_eval :: "int list \<Rightarrow> nat \<Rightarrow> nat \<Rightarrow> int \<Rightarrow> nat \<Rightarrow> int" where
  "stride_eval xs t m c j = (\<Sum>l<m. xs ! (j + l * t) * c ^ l)"

definition stage_inv :: "int \<Rightarrow> int list \<Rightarrow> int list \<Rightarrow> nat \<Rightarrow> nat \<Rightarrow> int list \<Rightarrow> bool" where
  "stage_inv q T xs m t ys \<longleftrightarrow>
     (\<forall>i<m. \<forall>j<t. ys ! (i * t + j) mod q = stride_eval xs t m (block_root T (m + i)) j mod q)"

section \<open>Properties\<close>

subsection \<open>secure\_next\_int\<close>

lemma from_bytes_little_nonneg: "0 \<le> from_bytes_little bs"
  by (induction bs) (simp_all add: from_bytes_little_def)

text \<open>A run of the rejection loop that returns has found an accepted draw and returns it.\<close>

lemma draw_loop_Some:
  assumes "draw_loop ns msk r es = Some y"
  shows "\<exists>k. y = (from_bytes_little (stake ns (sdrop (k * ns) es)) AND msk, sdrop (Suc k * ns) es)
        \<and> from_bytes_little (stake ns (sdrop (k * ns) es)) AND msk \<le> r"
  using assms
proof (induct rule: draw_loop.raw_induct [rotated 1, consumes 1, case_names step])
  case (step dl ns msk r es y)
  show ?case
  proof (cases "from_bytes_little (stake ns es) AND msk \<le> r")
    case True
    with step(2) have "y = (from_bytes_little (stake ns es) AND msk, sdrop ns es)"
      by (simp add: urandom_def Let_def)
    with True show ?thesis by (intro exI[of _ 0]) simp
  next
    case False
    with step(2) have "dl ns msk r (sdrop ns es) = Some y"
      by (simp add: urandom_def Let_def)
    from step(1)[OF this] obtain k where
      "y = (from_bytes_little (stake ns (sdrop (k * ns) (sdrop ns es))) AND msk,
            sdrop (Suc k * ns) (sdrop ns es))
       \<and> from_bytes_little (stake ns (sdrop (k * ns) (sdrop ns es))) AND msk \<le> r"
      by blast
    then show ?thesis
      by (intro exI[of _ "Suc k"]) (simp add: add.commute)
  qed
qed

text \<open>The loop returns as soon as some draw is accepted.\<close>

lemma draw_loop_terminates:
  "from_bytes_little (stake ns (sdrop (k * ns) es)) AND msk \<le> r \<Longrightarrow>
     \<exists>y. draw_loop ns msk r es = Some y"
proof (induction k arbitrary: es)
  case 0
  then show ?case by (subst draw_loop.simps) (simp add: urandom_def Let_def)
next
  case (Suc k)
  have "from_bytes_little (stake ns (sdrop (k * ns) (sdrop ns es))) AND msk \<le> r"
    using Suc.prems by (simp add: add.commute)
  from Suc.IH[OF this] show ?case
    by (subst draw_loop.simps) (auto simp add: urandom_def Let_def)
qed

lemma draw_loop_range:
  assumes "draw_loop ns msk r es = Some (v, es')"
  shows "0 \<le> v \<and> v \<le> r"
  using draw_loop_Some[OF assms] from_bytes_little_nonneg by auto

lemma secure_next_int_Inr:
  assumes "secure_next_int mn mx es = Some (Inr v, es')"
  shows "mn \<le> v \<and> v \<le> mx"
proof (cases "mn < mx")
  case True
  with assms obtain w where
    "draw_loop (num_size (mx - mn)) (build_mask (mx - mn)) (mx - mn) es = Some (w, es')"
    and "v = w + mn"
    by (auto simp: secure_next_int_def Let_def split: option.splits if_splits)
  with draw_loop_range[OF this(1)] show ?thesis by simp
next
  case False
  with assms show ?thesis
    by (auto simp: secure_next_int_def Let_def split: option.splits if_splits)
qed

lemma secure_next_int_Inl:
  assumes "secure_next_int mn mx es = Some (Inl e, es')"
  shows "e = InvalidRangeError \<and> mx < mn \<and> es' = es"
  using assms by (auto simp: secure_next_int_def Let_def split: option.splits if_splits)

lemma build_mask_4: "build_mask 4 = 7" "num_size 4 = 1"
  by (simp_all add: build_mask_def num_size_def int_log2_def bit_length.simps)

text \<open>
  C3.  The claim is that for every span of at least 1 the mask after the loop is
  \<open>2 ^ bit_length span - 1\<close>.  For the span 65536 (17 bits, three bytes) the loop runs
  \<open>int (log2 24) = 4\<close> times and shifts by 1, 2, 4 and 8, which fills the 16 bits from the
  top one down and leaves bit 0 clear: the mask is 131070 and not 131071.
\<close>

theorem build_mask_65536:
  "build_mask 65536 = 131070 \<and> (2::int) ^ bit_length 65536 - 1 = 131071"
  by (simp add: build_mask_def num_size_def int_log2_def bit_length.simps)

text \<open>
  C5, the claim as stated fails: with the bounds 0 and 4 the mask is 7, and on an entropy
  source that only ever yields the byte 255 every draw is 7, which is rejected; the call
  does not return.
\<close>

theorem secure_next_int_never_returns:
  "\<not> (\<exists>r es'. secure_next_int 0 4 (sconst 255) = Some (Inr r, es') \<and> 0 \<le> r \<and> r \<le> 4)"
proof -
  have "draw_loop 1 7 4 (sconst 255) = None"
  proof (cases "draw_loop 1 7 4 (sconst 255)")
    case (Some y)
    from draw_loop_Some[OF this] show ?thesis
      by (simp add: from_bytes_little_def)
  qed simp
  then show ?thesis by (simp add: secure_next_int_def build_mask_4)
qed

text \<open>
  C5, amended.  For \<open>min \<le> max\<close> and every outcome of the entropy source: when the bounds
  are equal or some draw is accepted, the call returns a value \<open>r\<close> with
  \<open>min \<le> r \<le> max\<close>; otherwise it does not return (and it never raises).
\<close>

theorem secure_next_int_in_range:
  "mn \<le> mx \<Longrightarrow>
     (if mn = mx \<or> (\<exists>k. draw_accepted (mx - mn) es k)
      then \<exists>r es'. secure_next_int mn mx es = Some (Inr r, es') \<and> mn \<le> r \<and> r \<le> mx
      else secure_next_int mn mx es = None)"
proof -
  assume le: "mn \<le> mx"
  show ?thesis
  proof (cases "mn = mx")
    case True
    then show ?thesis by (simp add: secure_next_int_def)
  next
    case False
    with le have lt: "mn < mx" by simp
    let ?d = "draw_loop (num_size (mx - mn)) (build_mask (mx - mn)) (mx - mn) es"
    show ?thesis
    proof (cases "\<exists>k. draw_accepted (mx - mn) es k")
      case True
      then obtain y where y: "?d = Some y"
        using draw_loop_terminates unfolding draw_accepted_def by blast
      obtain w es' where "y = (w, es')" by (cases y)
      with y lt have "secure_next_int mn mx es = Some (Inr (w + mn), es')"
        by (simp add: secure_next_int_def Let_def)
      with secure_next_int_Inr[OF this] True show ?thesis by auto
    next
      case no: False
      have "?d = None"
      proof (cases ?d)
        case (Some y)
        from draw_loop_Some[OF this] no show ?thesis
          unfolding draw_accepted_def by blast
      qed simp
      with lt no False show ?thesis by (simp add: secure_next_int_def Let_def)
    qed
  qed
qed

theorem secure_next_int_in_range_witness:
  "(0::int) \<le> 4 \<and> draw_accepted 4 (sconst 3) 0
     \<and> secure_next_int 0 4 (sconst 3) = Some (Inr 3, sconst 3)"
proof -
  have a: "draw_accepted (4 - 0) (sconst 3) 0"
    by (simp add: draw_accepted_def build_mask_4 from_bytes_little_def)
  have d: "draw_loop 1 7 4 (sconst 3) = Some (3, sconst 3)"
    by (subst draw_loop.simps) (simp add: urandom_def from_bytes_little_def)
  have "(0::int) \<le> 4" by simp
  from secure_next_int_in_range[OF this, of "sconst 3"] a d show ?thesis
    by (simp add: secure_next_int_def build_mask_4)
qed

text \<open>
  C7.  The call raises exactly when \<open>min > max\<close>, the exception is the range error and no
  entropy has been consumed; with equal bounds it returns \<open>min\<close> at once, again without
  drawing.
\<close>

theorem secure_next_int_raises_iff:
  "((\<exists>e es'. secure_next_int mn mx es = Some (Inl e, es')) \<longleftrightarrow> mx < mn)
   \<and> (secure_next_int mn mx es = Some (Inl InvalidRangeError, es) \<longleftrightarrow> mx < mn)
   \<and> secure_next_int mn mn es = Some (Inr mn, es)"
  by (auto simp: secure_next_int_def Let_def split: option.splits)

subsection \<open>bit\_reverse\_order\<close>

text \<open>
  C10.  On every list of length 6 the call raises \<^verbatim>\<open>IndexError\<close>: the index 3 is reversed
  over \<open>bit_length 5 = 3\<close> bits to 6, which is not an index of the result.
\<close>

theorem bit_reverse_order_length_6:
  "length a = 6 \<Longrightarrow>
     bit_reverse_order (a :: 'a :: zero list) = Inl IndexError
     \<and> num_bits_of 6 = 3 \<and> rev_index 3 3 = 6"
proof -
  assume "length a = 6"
  then obtain a0 a1 a2 a3 a4 a5 where "a = [a0, a1, a2, a3, a4, a5]"
    by (auto simp: length_Suc_conv eval_nat_numeral)
  then show ?thesis
    by (simp add: bit_reverse_order_def num_bits_of_def py_bin_def bin_str.simps bin_digit_def
        bit_reverse_step_def rev_index_def zfill_def int_base2_def upt_rec Let_def)
qed

theorem bit_reverse_order_length_6_witness:
  "length [1, 2, 3, 4, 5, 6 :: int] = 6
     \<and> bit_reverse_order [1, 2, 3, 4, 5, 6 :: int] = Inl IndexError"
  using bit_reverse_order_length_6 [of "[1, 2, 3, 4, 5, 6 :: int]"] by simp

subsection \<open>get\_prim\_root\<close>

lemma prim_root_loop_Inr:
  "prim_root_loop t n q r es = Some (Inr psi, es') \<Longrightarrow>
     pow_mod psi (n div 2) q = Inr (q - 1) \<and> 3 \<le> q"
proof (induction t arbitrary: es)
  case 0
  then show ?case by simp
next
  case (Suc t)
  from Suc.prems obtain x es1 where d: "secure_next_int 2 (q - 1) es = Some (Inr x, es1)"
    by (auto split: option.splits sum.splits prod.splits)
  from secure_next_int_Inr[OF d] have q: "3 \<le> q" by simp
  from Suc.prems d obtain c where c: "pow_mod x r q = Inr c"
    by (auto split: sum.splits)
  from Suc.prems d c obtain v where v: "pow_mod c (n div 2) q = Inr v"
    by (auto split: sum.splits)
  show ?case
  proof (cases "v = q - 1")
    case True
    with Suc.prems d c v q show ?thesis by simp
  next
    case False
    with Suc.prems d c v have "prim_root_loop t n q r es1 = Some (Inr psi, es')" by simp
    from Suc.IH[OF this] show ?thesis .
  qed
qed

lemma square_of_minus_one_mod: "1 < (q::int) \<Longrightarrow> x mod q = q - 1 \<Longrightarrow> (x * x) mod q = 1"
proof -
  assume q: "1 < q" and x: "x mod q = q - 1"
  have "(x * x) mod q = ((x mod q) * (x mod q)) mod q" by (simp add: mod_mult_eq)
  also have "\<dots> = ((q - 1) * (q - 1)) mod q" by (simp add: x)
  also have "(q - 1) * (q - 1) = 1 + q * (q - 2)" by (simp add: algebra_simps)
  also have "(1 + q * (q - 2)) mod q = 1 mod q" by simp
  finally show ?thesis using q by simp
qed

text \<open>
  C4.  Whatever \<open>get_prim_root\<close> returns for a positive \<open>n\<close> satisfies \<open>psi ^ n mod q = q - 1\<close>
  and \<open>psi ^ (2 * n) mod q = 1\<close>.  Neither the primality of \<open>q\<close> nor \<open>q mod (2 * n) = 1\<close> is
  needed for that, and the exponent \<open>r\<close> may be given or left to its default.
\<close>

theorem get_prim_root_returns_root:
  "get_prim_root n q r0 es = Some (Inr psi, es') \<Longrightarrow> 0 < n \<Longrightarrow>
     psi ^ nat n mod q = q - 1 \<and> psi ^ nat (2 * n) mod q = 1"
proof -
  assume g: "get_prim_root n q r0 es = Some (Inr psi, es')" and n: "0 < n"
  then obtain r where "prim_root_loop 50 (2 * n) q r es = Some (Inr psi, es')"
    by (auto simp: get_prim_root_def Let_def split: option.splits if_splits)
  from prim_root_loop_Inr[OF this] have p: "pow_mod psi n q = Inr (q - 1)" and q: "3 \<le> q"
    by simp_all
  from p q n have a: "psi ^ nat n mod q = q - 1" by (simp add: pow_mod_def)
  have "nat (2 * n) = nat n + nat n" using n by simp
  then have "psi ^ nat (2 * n) = psi ^ nat n * psi ^ nat n" by (simp add: power_add)
  with square_of_minus_one_mod[OF _ a] q have "psi ^ nat (2 * n) mod q = 1" by simp
  with a show ?thesis by simp
qed

lemma pow_mod_17: "pow_mod 5 1 17 = Inr 5" "pow_mod 5 8 17 = Inr 16"
  by (simp_all add: pow_mod_def)

lemma build_mask_14: "build_mask 14 = 15" "num_size 14 = 1"
  by (simp_all add: build_mask_def num_size_def int_log2_def bit_length.simps)

lemma draw_2_16: "secure_next_int 2 16 (sconst 3) = Some (Inr 5, sconst 3)"
proof -
  have "draw_loop 1 15 14 (sconst 3) = Some (3, sconst 3)"
    by (subst draw_loop.simps) (simp add: urandom_def from_bytes_little_def)
  then show ?thesis by (simp add: secure_next_int_def build_mask_14)
qed

lemma get_prim_root_8_17: "get_prim_root 8 17 None (sconst 3) = Some (Inr 5, sconst 3)"
  by (simp add: get_prim_root_def eval_nat_numeral draw_2_16 pow_mod_17 del: power_Suc)

theorem get_prim_root_returns_root_witness:
  "get_prim_root 8 17 None (sconst 3) = Some (Inr 5, sconst 3) \<and> (0::int) < 8
     \<and> (5::int) ^ nat 8 mod 17 = 17 - 1 \<and> (5::int) ^ nat (2 * 8) mod 17 = 1"
  using get_prim_root_returns_root[OF get_prim_root_8_17] get_prim_root_8_17 by simp

lemma pow_mod_nonneg: "q \<noteq> 0 \<Longrightarrow> 0 \<le> e \<Longrightarrow> pow_mod b e q = Inr (b ^ nat e mod q)"
  by (simp add: pow_mod_def)

lemma prim_root_loop_step:
  assumes "secure_next_int 2 (q - 1) es = Some (Inr x, es1)" "0 \<le> r" "0 \<le> n div 2"
  shows "prim_root_loop (Suc t) n q r es =
     (if accepted (n div 2) q (candidate_of q r x) then Some (Inr (candidate_of q r x), es1)
      else prim_root_loop t n q r es1)"
proof -
  from secure_next_int_Inr[OF assms(1)] have "q \<noteq> 0" by simp
  with assms show ?thesis
    by (simp add: pow_mod_nonneg accepted_def candidate_of_def)
qed

lemma prim_root_loop_no_draw:
  assumes "\<not> (\<exists>x es1. secure_next_int 2 (q - 1) es = Some (Inr x, es1))"
  shows "prim_root_loop (Suc t) n q r es \<noteq> Some (Inl RootNotFoundError, es')"
    and "prim_root_loop (Suc t) n q r es \<noteq> Some (Inr psi, es')"
    and "uri_draws (Suc t) q es = None"
  using assms secure_next_int_Inl[of 2 "q - 1" es]
  by (auto split: option.splits sum.splits prod.splits)

lemma prim_root_loop_fails_iff:
  assumes "0 \<le> r" "0 \<le> n div 2"
  shows "prim_root_loop t n q r es = Some (Inl RootNotFoundError, es') \<longleftrightarrow>
     (\<exists>xs. uri_draws t q es = Some (xs, es')
        \<and> (\<forall>x\<in>set xs. \<not> accepted (n div 2) q (candidate_of q r x)))"
proof (induction t arbitrary: es)
  case 0
  then show ?case by auto
next
  case (Suc t)
  show ?case
  proof (cases "\<exists>x es1. secure_next_int 2 (q - 1) es = Some (Inr x, es1)")
    case False
    from prim_root_loop_no_draw(1,3)[OF this] show ?thesis by simp
  next
    case True
    then obtain x es1 where d: "secure_next_int 2 (q - 1) es = Some (Inr x, es1)" by blast
    show ?thesis
      unfolding prim_root_loop_step[OF d assms]
      using Suc.IH[of es1] d
      by (auto split: option.splits)
  qed
qed

lemma prim_root_loop_returns_iff:
  assumes "0 \<le> r" "0 \<le> n div 2"
  shows "prim_root_loop t n q r es = Some (Inr psi, es') \<longleftrightarrow>
     (\<exists>xs x. length xs < t \<and> uri_draws (Suc (length xs)) q es = Some (xs @ [x], es')
        \<and> (\<forall>y\<in>set xs. \<not> accepted (n div 2) q (candidate_of q r y))
        \<and> accepted (n div 2) q (candidate_of q r x) \<and> psi = candidate_of q r x)"
  (is "?L t es \<longleftrightarrow> ?R t es")
proof (induction t arbitrary: es)
  case 0
  then show ?case by auto
next
  case (Suc t)
  show ?case
  proof (cases "\<exists>x es1. secure_next_int 2 (q - 1) es = Some (Inr x, es1)")
    case False
    have "uri_draws (Suc k) q es = None" for k
      using prim_root_loop_no_draw(3)[OF False] .
    with prim_root_loop_no_draw(2)[OF False] show ?thesis by simp
  next
    case True
    then obtain x es1 where d: "secure_next_int 2 (q - 1) es = Some (Inr x, es1)" by blast
    show ?thesis
    proof (cases "accepted (n div 2) q (candidate_of q r x)")
      case acc: True
      have "?R (Suc t) es \<longleftrightarrow> psi = candidate_of q r x \<and> es' = es1"
      proof
        assume "?R (Suc t) es"
        then obtain xs y where r: "uri_draws (Suc (length xs)) q es = Some (xs @ [y], es')"
          "\<forall>z\<in>set xs. \<not> accepted (n div 2) q (candidate_of q r z)"
          "psi = candidate_of q r y" by blast
        show "psi = candidate_of q r x \<and> es' = es1"
        proof (cases xs)
          case Nil
          with r d show ?thesis by simp
        next
          case (Cons z zs)
          with r(1) d have "z = x" by (auto split: option.splits)
          with Cons r(2) acc show ?thesis by simp
        qed
      next
        assume "psi = candidate_of q r x \<and> es' = es1"
        with d acc show "?R (Suc t) es"
          by (intro exI[of _ "[]"] exI[of _ x]) simp
      qed
      with acc show ?thesis unfolding prim_root_loop_step[OF d assms] by auto
    next
      case rej: False
      have "?R (Suc t) es \<longleftrightarrow> ?R t es1"
      proof
        assume "?R (Suc t) es"
        then obtain xs y where r: "length xs < Suc t"
          "uri_draws (Suc (length xs)) q es = Some (xs @ [y], es')"
          "\<forall>z\<in>set xs. \<not> accepted (n div 2) q (candidate_of q r z)"
          "accepted (n div 2) q (candidate_of q r y)"
          "psi = candidate_of q r y" by blast
        show "?R t es1"
        proof (cases xs)
          case Nil
          with r d rej show ?thesis by simp
        next
          case (Cons z zs)
          with r(2) d have "uri_draws (Suc (length zs)) q es1 = Some (zs @ [y], es')"
            by (auto split: option.splits prod.splits)
          with Cons r show ?thesis
            by (intro exI[of _ zs] exI[of _ y]) simp
        qed
      next
        assume "?R t es1"
        then obtain xs y where r: "length xs < t"
          "uri_draws (Suc (length xs)) q es1 = Some (xs @ [y], es')"
          "\<forall>z\<in>set xs. \<not> accepted (n div 2) q (candidate_of q r z)"
          "accepted (n div 2) q (candidate_of q r y)"
          "psi = candidate_of q r y" by blast
        from r(2) d have "uri_draws (Suc (length (x # xs))) q es = Some ((x # xs) @ [y], es')"
          by simp
        with r rej show "?R (Suc t) es"
          by (intro exI[of _ "x # xs"] exI[of _ y]) simp
      qed
      with rej Suc.IH[of es1] show ?thesis unfolding prim_root_loop_step[OF d assms] by simp
    qed
  qed
qed

lemma uri_draws_range:
  "uri_draws k q es = Some (xs, es') \<Longrightarrow> length xs = k \<and> (\<forall>x\<in>set xs. 2 \<le> x \<and> x \<le> q - 1)"
proof (induction k arbitrary: es xs)
  case 0
  then show ?case by simp
next
  case (Suc k)
  from Suc.prems obtain x es1 ys where d: "secure_next_int 2 (q - 1) es = Some (Inr x, es1)"
    and u: "uri_draws k q es1 = Some (ys, es')" and xs: "xs = x # ys"
    by (auto split: option.splits sum.splits prod.splits)
  from Suc.IH[OF u] secure_next_int_Inr[OF d] xs show ?case by simp
qed


text \<open>
  C6.  With \<open>n\<close> positive and a non-negative exponent, the call raises the root-not-found
  error exactly when 50 values have been drawn from \<open>[2, q - 1]\<close> and the candidate of each
  was rejected; and it returns \<open>psi\<close> exactly when, after fewer than 50 rejected draws, the
  next draw gives the accepted candidate \<open>psi\<close>.  So at most 50 candidates are tried; the
  number 50 is a constant of the function and not one of its parameters.
\<close>

theorem get_prim_root_budget:
  assumes "0 < n" and "0 \<le> root_exponent n q r0"
  shows "(get_prim_root n q r0 es = Some (Inl RootNotFoundError, es') \<longleftrightarrow>
            (\<exists>xs. uri_draws 50 q es = Some (xs, es') \<and> length xs = 50
               \<and> (\<forall>x\<in>set xs. 2 \<le> x \<and> x \<le> q - 1
                     \<and> \<not> accepted n q (candidate_of q (root_exponent n q r0) x))))
       \<and> (get_prim_root n q r0 es = Some (Inr psi, es') \<longleftrightarrow>
            (\<exists>xs x. length xs < 50
               \<and> uri_draws (Suc (length xs)) q es = Some (xs @ [x], es')
               \<and> (\<forall>y\<in>set xs. \<not> accepted n q (candidate_of q (root_exponent n q r0) y))
               \<and> 2 \<le> x \<and> x \<le> q - 1
               \<and> accepted n q (candidate_of q (root_exponent n q r0) x)
               \<and> psi = candidate_of q (root_exponent n q r0) x))"
proof -
  let ?r = "root_exponent n q r0"
  have g: "get_prim_root n q r0 es = prim_root_loop 50 (2 * n) q ?r es"
    using assms(1) by (simp add: get_prim_root_def root_exponent_def Let_def split: option.splits)
  have h: "0 \<le> (2 * n) div 2" "(2 * n) div 2 = n" using assms(1) by simp_all
  have a: "get_prim_root n q r0 es = Some (Inl RootNotFoundError, es') \<longleftrightarrow>
            (\<exists>xs. uri_draws 50 q es = Some (xs, es') \<and> length xs = 50
               \<and> (\<forall>x\<in>set xs. 2 \<le> x \<and> x \<le> q - 1 \<and> \<not> accepted n q (candidate_of q ?r x)))"
    unfolding g prim_root_loop_fails_iff[OF assms(2) h(1)] h(2)
    using uri_draws_range[of 50 q es _ es'] by blast
  have b: "get_prim_root n q r0 es = Some (Inr psi, es') \<longleftrightarrow>
            (\<exists>xs x. length xs < 50
               \<and> uri_draws (Suc (length xs)) q es = Some (xs @ [x], es')
               \<and> (\<forall>y\<in>set xs. \<not> accepted n q (candidate_of q ?r y))
               \<and> 2 \<le> x \<and> x \<le> q - 1
               \<and> accepted n q (candidate_of q ?r x)
               \<and> psi = candidate_of q ?r x)"
    (is "_ \<longleftrightarrow> ?R")
  proof -
    have "?R \<longleftrightarrow> (\<exists>xs x. length xs < 50
               \<and> uri_draws (Suc (length xs)) q es = Some (xs @ [x], es')
               \<and> (\<forall>y\<in>set xs. \<not> accepted n q (candidate_of q ?r y))
               \<and> accepted n q (candidate_of q ?r x)
               \<and> psi = candidate_of q ?r x)"
    proof (intro iffI)
      assume "\<exists>xs x. length xs < 50
               \<and> uri_draws (Suc (length xs)) q es = Some (xs @ [x], es')
               \<and> (\<forall>y\<in>set xs. \<not> accepted n q (candidate_of q ?r y))
               \<and> accepted n q (candidate_of q ?r x)
               \<and> psi = candidate_of q ?r x"
      then obtain xs x where r: "length xs < 50"
        "uri_draws (Suc (length xs)) q es = Some (xs @ [x], es')"
        "\<forall>y\<in>set xs. \<not> accepted n q (candidate_of q ?r y)"
        "accepted n q (candidate_of q ?r x)" "psi = candidate_of q ?r x" by blast
      from uri_draws_range[OF r(2)] have "2 \<le> x \<and> x \<le> q - 1" by simp
      with r show ?R by blast
    qed blast
    then show ?thesis
      unfolding g prim_root_loop_returns_iff[OF assms(2) h(1)] h(2) by simp
  qed
  from a b show ?thesis by simp
qed

lemma draw_2_16_zero: "secure_next_int 2 16 (sconst 0) = Some (Inr 2, sconst 0)"
proof -
  have "draw_loop 1 15 14 (sconst 0) = Some (0, sconst 0)"
    by (subst draw_loop.simps) (simp add: urandom_def from_bytes_little_def)
  then show ?thesis by (simp add: secure_next_int_def build_mask_14)
qed

lemma uri_draws_constant:
  assumes "secure_next_int 2 (q - 1) es = Some (Inr x, es)"
  shows "uri_draws k q es = Some (replicate k x, es)"
  by (induction k) (simp_all add: assms)

lemma uri_draws_zero: "uri_draws k 17 (sconst 0) = Some (replicate k 2, sconst 0)"
  by (rule uri_draws_constant) (simp add: draw_2_16_zero)

theorem get_prim_root_budget_witness:
  "(0::int) < 8 \<and> 0 \<le> root_exponent 8 17 None
     \<and> get_prim_root 8 17 None (sconst 0) = Some (Inl RootNotFoundError, sconst 0)"
proof -
  have n: "(0::int) < 8" by simp
  have r: "root_exponent 8 17 None = 1" by (simp add: root_exponent_def)
  have e: "0 \<le> root_exponent 8 17 None" by (simp add: r)
  have "\<not> accepted 8 17 (candidate_of 17 1 2)"
    by (simp add: accepted_def candidate_of_def)
  then have "\<exists>xs. uri_draws 50 17 (sconst 0) = Some (xs, sconst 0) \<and> length xs = 50
      \<and> (\<forall>x\<in>set xs. 2 \<le> x \<and> x \<le> 17 - 1
            \<and> \<not> accepted 8 17 (candidate_of 17 (root_exponent 8 17 None) x))"
    by (intro exI[of _ "replicate 50 2"]) (simp add: uri_draws_zero r)
  with get_prim_root_budget[OF n e, of "sconst 0" "sconst 0"] n e show ?thesis by blast
qed

subsection \<open>Bit reversal and bit\_reverse\_order on power-of-two lengths\<close>

lemma efold_append:
  "efold f (xs @ ys) s = (case efold f xs s of Inl e \<Rightarrow> Inl e | Inr s' \<Rightarrow> efold f ys s')"
  by (induction xs arbitrary: s) (auto split: sum.splits)

lemma reverse_bits_0: "reverse_bits 0 i = 0"
  by (simp add: reverse_bits_def)

lemma reverse_bits_Suc:
  "reverse_bits (Suc k) i = (i mod 2) * 2 ^ k + reverse_bits k (i div 2)"
proof -
  have "reverse_bits (Suc k) i =
      of_bool (bit i 0) * 2 ^ (Suc k - 1 - 0)
        + (\<Sum>j<k. of_bool (bit i (Suc j)) * 2 ^ (Suc k - 1 - Suc j))"
    unfolding reverse_bits_def by (rule sum.lessThan_Suc_shift)
  moreover have "of_bool (bit i 0) * 2 ^ (Suc k - 1 - 0) = (i mod 2) * 2 ^ k"
    by (simp add: bit_0 mod_2_eq_odd)
  moreover have "(\<Sum>j<k. of_bool (bit i (Suc j)) * 2 ^ (Suc k - 1 - Suc j))
      = reverse_bits k (i div 2)"
    unfolding reverse_bits_def
    by (intro sum.cong refl) (simp add: bit_Suc)
  ultimately show ?thesis by (simp only:)
qed

lemma reverse_bits_less: "reverse_bits k i < 2 ^ k"
proof (induction k arbitrary: i)
  case 0
  show ?case by (simp add: reverse_bits_0)
next
  case (Suc k)
  have "i mod 2 = 0 \<or> i mod 2 = 1" by auto
  with Suc[of "i div 2"] show ?case by (auto simp add: reverse_bits_Suc)
qed

lemma reverse_bits_top:
  "i < 2 ^ Suc k \<Longrightarrow> reverse_bits (Suc k) i = 2 * reverse_bits k (i mod 2 ^ k) + i div 2 ^ k"
proof (induction k arbitrary: i)
  case 0
  then show ?case by (simp add: reverse_bits_Suc reverse_bits_0)
next
  case (Suc k)
  have d: "i div 2 < 2 ^ Suc k" using Suc.prems by simp
  have a: "(i div 2) mod 2 ^ k = (i mod 2 ^ Suc k) div 2"
    by (metis drop_bit_Suc drop_bit_eq_div take_bit_eq_mod drop_bit_take_bit diff_Suc_1 drop_bit_0 id_apply take_bit_Suc_from_most power_one_right)
  have b: "(i div 2) div 2 ^ k = i div 2 ^ Suc k"
    by (simp add: div_mult2_eq)
  have c: "(i mod 2 ^ Suc k) mod 2 = i mod 2"
    by (metis dvd_triv_left mod_mod_cancel power_Suc)
  have "reverse_bits (Suc (Suc k)) i = (i mod 2) * 2 ^ Suc k + reverse_bits (Suc k) (i div 2)"
    by (rule reverse_bits_Suc)
  also have "reverse_bits (Suc k) (i div 2)
      = 2 * reverse_bits k ((i div 2) mod 2 ^ k) + (i div 2) div 2 ^ k"
    by (rule Suc.IH[OF d])
  finally have "reverse_bits (Suc (Suc k)) i
      = (i mod 2) * 2 ^ Suc k + 2 * reverse_bits k ((i mod 2 ^ Suc k) div 2) + i div 2 ^ Suc k"
    by (simp only: a b add.assoc)
  moreover have "reverse_bits (Suc k) (i mod 2 ^ Suc k)
      = (i mod 2) * 2 ^ k + reverse_bits k ((i mod 2 ^ Suc k) div 2)"
    by (simp only: reverse_bits_Suc[of k "i mod 2 ^ Suc k"] c)
  ultimately show ?case by (simp add: algebra_simps)
qed

lemma reverse_bits_involution: "i < 2 ^ k \<Longrightarrow> reverse_bits k (reverse_bits k i) = i"
proof (induction k arbitrary: i)
  case 0
  then show ?case by (simp add: reverse_bits_0)
next
  case (Suc k)
  let ?y = "reverse_bits (Suc k) i"
  have y: "?y = (i mod 2) * 2 ^ k + reverse_bits k (i div 2)" by (rule reverse_bits_Suc)
  have l: "reverse_bits k (i div 2) < 2 ^ k" by (rule reverse_bits_less)
  have m: "?y mod 2 ^ k = reverse_bits k (i div 2)" using l by (simp add: y)
  have d: "?y div 2 ^ k = i mod 2" using l by (simp add: y)
  have "i div 2 < 2 ^ k" using Suc.prems by simp
  from Suc.IH[OF this] have "reverse_bits k (reverse_bits k (i div 2)) = i div 2" .
  with reverse_bits_top[OF reverse_bits_less, of k i] m d show ?case by simp
qed


lemma int_base2_foldl:
  "foldl (\<lambda>acc c. 2 * acc + (if c = CHR ''1'' then 1 else 0)) a s
     = a * 2 ^ length s + int_base2 s"
proof -
  let ?f = "\<lambda>acc c. 2 * acc + (if c = CHR ''1'' then 1 else (0::nat))"
  have "foldl ?f a s = a * 2 ^ length s + foldl ?f 0 s"
  proof (induction s arbitrary: a)
    case Nil
    show ?case by simp
  next
    case (Cons c s)
    have "foldl ?f a (c # s) = foldl ?f (?f a c) s" by simp
    also have "\<dots> = ?f a c * 2 ^ length s + foldl ?f 0 s" by (rule Cons.IH)
    finally have l: "foldl ?f a (c # s) = ?f a c * 2 ^ length s + foldl ?f 0 s" .
    have "foldl ?f 0 (c # s) = foldl ?f (?f 0 c) s" by simp
    also have "\<dots> = ?f 0 c * 2 ^ length s + foldl ?f 0 s" by (rule Cons.IH)
    finally have r: "foldl ?f 0 (c # s) = ?f 0 c * 2 ^ length s + foldl ?f 0 s" .
    show ?case unfolding l r by (simp add: algebra_simps)
  qed
  then show ?thesis by (simp add: int_base2_def)
qed

lemma int_base2_Cons:
  "int_base2 (c # s) = (if c = CHR ''1'' then 1 else 0) * 2 ^ length s + int_base2 s"
  using int_base2_foldl[of "if c = CHR ''1'' then 1 else 0" s]
  by (simp add: int_base2_def)

lemma int_base2_zeros: "int_base2 (replicate k CHR ''0'') = 0"
  by (induction k) (simp_all add: int_base2_Cons, simp add: int_base2_def)

lemma bin_digit_value: "d < 2 \<Longrightarrow> (if bin_digit d = CHR ''1'' then 1 else 0) = d"
  by (auto simp: bin_digit_def)

lemma length_bin_str_le: "n < 2 ^ k \<Longrightarrow> 1 \<le> k \<Longrightarrow> length (bin_str n) \<le> k"
proof (induction k arbitrary: n)
  case 0
  then show ?case by simp
next
  case (Suc k)
  show ?case
  proof (cases "n < 2")
    case True
    then show ?thesis by (simp add: bin_str.simps)
  next
    case False
    then have k: "1 \<le> k" using Suc.prems by (cases k) auto
    have "n div 2 < 2 ^ k" using Suc.prems by simp
    from Suc.IH[OF this k] False show ?thesis by (subst bin_str.simps) simp
  qed
qed

lemma reverse_bits_zero: "reverse_bits k 0 = 0"
  by (simp add: reverse_bits_def)

lemma rev_index_eq: "i < 2 ^ k \<Longrightarrow> 1 \<le> k \<Longrightarrow> rev_index k i = reverse_bits k i"
proof (induction k arbitrary: i)
  case 0
  then show ?case by simp
next
  case (Suc k)
  have r: "rev_index m j = int_base2 (rev (zfill m (bin_str j)))" for m j
    by (simp add: rev_index_def py_bin_def)
  show ?case
  proof (cases "i < 2")
    case True
    then have "bin_str i = [bin_digit i]" by (simp add: bin_str.simps)
    then have "rev_index (Suc k) i = i * 2 ^ k"
      using True by (simp add: r zfill_def int_base2_Cons int_base2_zeros bin_digit_value)
    moreover have "i mod 2 = i" "i div 2 = 0" using True by simp_all
    ultimately show ?thesis by (simp add: reverse_bits_Suc reverse_bits_zero)
  next
    case False
    then have k: "1 \<le> k" using Suc.prems by (cases k) auto
    have d: "i div 2 < 2 ^ k" using Suc.prems by simp
    have b: "bin_str i = bin_str (i div 2) @ [bin_digit (i mod 2)]"
      using False by (subst bin_str.simps) simp
    have l: "length (bin_str (i div 2)) \<le> k" by (rule length_bin_str_le[OF d k])
    have z: "zfill (Suc k) (bin_str i) = zfill k (bin_str (i div 2)) @ [bin_digit (i mod 2)]"
      by (simp add: zfill_def b)
    have lz: "length (zfill k (bin_str (i div 2))) = k" using l by (simp add: zfill_def)
    have "rev_index (Suc k) i = (i mod 2) * 2 ^ k + rev_index k (i div 2)"
      by (simp add: r z int_base2_Cons lz bin_digit_value)
    with Suc.IH[OF d k] show ?thesis by (simp add: reverse_bits_Suc)
  qed
qed

lemma double_pred_half: "1 \<le> (x::nat) \<Longrightarrow> (2 * x - 1) div 2 = x - 1"
  by arith

lemma bin_str_ones: "length (bin_str (2 ^ Suc k - 1)) = Suc k"
proof (induction k)
  case 0
  show ?case by (simp add: bin_str.simps)
next
  case (Suc k)
  have p: "2 \<le> (2::nat) ^ Suc k" by simp
  define x where "x = (2::nat) ^ Suc k"
  have e: "(2::nat) ^ Suc (Suc k) = 2 * x" by (simp add: x_def)
  have x: "2 \<le> x" using p by (simp add: x_def)
  have h: "(2 * x - 1) div 2 = x - 1" using x by (intro double_pred_half) simp
  have n: "\<not> 2 * x - 1 < 2" using x by arith
  have "bin_str (2 * x - 1) = bin_str (x - 1) @ [bin_digit ((2 * x - 1) mod 2)]"
    using n by (subst bin_str.simps) (simp only: h if_False)
  then show ?case using Suc unfolding e by (simp add: x_def)
qed

lemma num_bits_of_pos: "1 \<le> n \<Longrightarrow> num_bits_of n = length (bin_str (n - 1))"
proof -
  assume "1 \<le> n"
  then have h: "int n - 1 = int (n - 1)" by (simp add: of_nat_diff)
  have "py_bin (int (n - 1)) = ''0b'' @ bin_str (n - 1)"
    unfolding py_bin_def by simp
  then show ?thesis unfolding num_bits_of_def h by simp
qed

lemma num_bits_of_pow2: "num_bits_of (2 ^ k) = (if k = 0 then 1 else k)"
proof (cases k)
  case 0
  then show ?thesis by (simp add: num_bits_of_def py_bin_def bin_str.simps)
next
  case (Suc j)
  have "1 \<le> (2::nat) ^ Suc j" by simp
  from num_bits_of_pos[OF this] Suc bin_str_ones[of j] show ?thesis by simp
qed

lemma reverse_bits_inj:
  "i < 2 ^ k \<Longrightarrow> j < 2 ^ k \<Longrightarrow> reverse_bits k i = reverse_bits k j \<Longrightarrow> i = j"
  by (metis reverse_bits_involution)

text \<open>The index that the loop computes for a list of length \<open>2 ^ k\<close>.\<close>

lemma rev_index_pow2:
  "i < 2 ^ k \<Longrightarrow> rev_index (num_bits_of (2 ^ k)) i = reverse_bits k i"
proof (cases k)
  case 0
  assume "i < 2 ^ k"
  with 0 have "i = 0" by simp
  then have "rev_index 1 i = reverse_bits 1 i" by (intro rev_index_eq) simp_all
  moreover have "num_bits_of (2 ^ k) = 1" using 0 by (simp only: num_bits_of_pow2) simp
  ultimately show ?thesis using 0 \<open>i = 0\<close>
    by (simp only: reverse_bits_zero)
next
  case (Suc j)
  assume "i < 2 ^ k"
  with Suc show ?thesis by (simp add: num_bits_of_pow2 rev_index_eq del: power_Suc)
qed

lemma bit_reverse_loop:
  assumes "length r0 = 2 ^ k" "m \<le> 2 ^ k"
  shows "\<exists>r. efold (bit_reverse_step a (num_bits_of (2 ^ k))) [0..<m] r0 = Inr r
           \<and> length r = 2 ^ k \<and> (\<forall>i<m. r ! reverse_bits k i = a ! i)"
  using assms(2)
proof (induction m)
  case 0
  then show ?case by (simp add: assms(1))
next
  case (Suc m)
  then obtain r where r: "efold (bit_reverse_step a (num_bits_of (2 ^ k))) [0..<m] r0 = Inr r"
    "length r = 2 ^ k" "\<forall>i<m. r ! reverse_bits k i = a ! i" by auto
  have m: "m < 2 ^ k" using Suc.prems by simp
  let ?r = "r[reverse_bits k m := a ! m]"
  have s: "bit_reverse_step a (num_bits_of (2 ^ k)) m r = Inr ?r"
    using reverse_bits_less[of k m] r(2) by (simp add: bit_reverse_step_def rev_index_pow2[OF m])
  have "?r ! reverse_bits k i = a ! i" if "i < Suc m" for i
  proof (cases "i = m")
    case True
    then show ?thesis using reverse_bits_less[of k m] r(2) by simp
  next
    case False
    with that have i: "i < m" by simp
    then have "i < 2 ^ k" using m by simp
    with reverse_bits_inj[OF this m] False have "reverse_bits k i \<noteq> reverse_bits k m" by blast
    with r(3) i show ?thesis by simp
  qed
  with r s show ?case by (simp add: efold_append)
qed

lemma bit_reverse_order_pow2:
  assumes "length a = 2 ^ k"
  shows "\<exists>b. bit_reverse_order a = Inr b \<and> length b = 2 ^ k
           \<and> (\<forall>i<2 ^ k. b ! reverse_bits k i = a ! i)"
  using bit_reverse_loop[of "replicate (2 ^ k) 0" k "2 ^ k" a] assms
  by (simp add: bit_reverse_order_def)

text \<open>
  C8.  For a list of length \<open>2 ^ k\<close> the call returns a list \<open>b\<close> of the same length in which
  the element at index \<open>i\<close> of the argument is at the index that reverses the \<open>k\<close> bits of
  \<open>i\<close>.  (For \<open>k = 0\<close> the code reverses over one bit, which gives the same index 0.)
\<close>

theorem bit_reverse_order_permutes:
  "length a = 2 ^ k \<Longrightarrow>
     \<exists>b. bit_reverse_order a = Inr b \<and> length b = 2 ^ k
       \<and> (\<forall>i<2 ^ k. reverse_bits k i < 2 ^ k \<and> b ! reverse_bits k i = a ! i)"
  using bit_reverse_order_pow2[of a k] reverse_bits_less by blast

theorem bit_reverse_order_permutes_witness:
  "length [1, 2, 3, 4 :: int] = 2 ^ 2
     \<and> (\<exists>b. bit_reverse_order [1, 2, 3, 4 :: int] = Inr b \<and> length b = 2 ^ 2
           \<and> (\<forall>i<2 ^ 2. reverse_bits 2 i < 2 ^ 2
                 \<and> b ! reverse_bits 2 i = [1, 2, 3, 4 :: int] ! i))"
  using bit_reverse_order_permutes [of "[1, 2, 3, 4 :: int]" 2] by simp

subsection \<open>The transforms write nothing but their own copy\<close>

lemma only_changes_refl: "only_changes A h h"
  by (simp add: only_changes_def)

lemma only_changes_trans:
  "only_changes A h h1 \<Longrightarrow> only_changes A h1 h2 \<Longrightarrow> only_changes A h h2"
  by (simp add: only_changes_def)

lemma only_changes_update: "only_changes A h (h[A := xs])"
  by (simp add: only_changes_def)

lemma efold_only_changes:
  assumes "\<And>x s. only_changes A (g s) (final_heap g (f x s))"
  shows "only_changes A (g s) (final_heap g (efold f xs s))"
proof (induction xs arbitrary: s)
  case Nil
  show ?case by (simp add: final_heap_def only_changes_refl)
next
  case (Cons x xs)
  show ?case
  proof (cases "f x s")
    case (Inl eh)
    with assms[of s x] show ?thesis by (simp add: final_heap_def)
  next
    case (Inr s')
    with assms[of s x] have "only_changes A (g s) (g s')" by (simp add: final_heap_def)
    from only_changes_trans[OF this Cons.IH[of s']] Inr show ?thesis by simp
  qed
qed

lemma ct_butterfly_only_changes:
  "only_changes A h (final_heap (\<lambda>h. h) (ct_butterfly q S t A j h))"
  by (simp add: ct_butterfly_def final_heap_def Let_def only_changes_def)

lemma gs_butterfly_only_changes:
  "only_changes A h (final_heap (\<lambda>h. h) (gs_butterfly q S t A j h))"
  by (simp add: gs_butterfly_def final_heap_def Let_def only_changes_def)

lemma intt_scale_only_changes:
  "only_changes A h (final_heap (\<lambda>h. h) (intt_scale q c A j h))"
  by (simp add: intt_scale_def final_heap_def Let_def only_changes_def)

lemma fntt_group_only_changes:
  "only_changes A h (final_heap (\<lambda>h. h) (fntt_group q tb A m t i h))"
proof (cases "length (h ! tb) \<le> m + i")
  case True
  then show ?thesis by (simp add: fntt_group_def final_heap_def only_changes_refl)
next
  case False
  then show ?thesis
    using efold_only_changes[where g = "\<lambda>h. h", OF ct_butterfly_only_changes]
    by (simp add: fntt_group_def Let_def)
qed

lemma fntt_while_only_changes:
  "only_changes A h (final_heap (\<lambda>h. h) (fntt_while n q tb A t m h))"
proof (induction n q tb A t m h rule: fntt_while.induct)
  case (1 n q tb A t m h)
  show ?case
  proof (cases "0 < m \<and> m < n")
    case False
    then show ?thesis
      by (subst fntt_while.simps) (auto simp add: final_heap_def only_changes_refl)
  next
    case True
    let ?r = "efold (fntt_group q tb A m (t div 2)) [0..<m] h"
    have e: "only_changes A h (final_heap (\<lambda>h. h) ?r)"
      by (rule efold_only_changes[where g = "\<lambda>h. h", OF fntt_group_only_changes])
    show ?thesis
    proof (cases ?r)
      case (Inl eh)
      with e True show ?thesis by (subst fntt_while.simps) (simp add: final_heap_def)
    next
      case (Inr h')
      from 1[OF True Inr] e Inr True show ?thesis
        by (subst fntt_while.simps) (auto simp: final_heap_def intro: only_changes_trans)
    qed
  qed
qed

lemma intt_group_only_changes:
  "only_changes A (snd st) (final_heap snd (intt_group q tb A hm t i st))"
proof (cases "length (snd st ! tb) \<le> hm + i")
  case True
  then show ?thesis by (simp add: intt_group_def final_heap_def only_changes_refl)
next
  case False
  have "only_changes A (snd st) (final_heap (\<lambda>h. h)
      (efold (gs_butterfly q (snd st ! tb ! (hm + i)) t A) [fst st..<fst st + t] (snd st)))"
    by (rule efold_only_changes[where g = "\<lambda>h. h", OF gs_butterfly_only_changes])
  with False show ?thesis
    by (auto simp add: intt_group_def Let_def final_heap_def split: sum.splits)
qed

lemma intt_while_only_changes:
  "only_changes A h (final_heap (\<lambda>h. h) (intt_while q tb A t m h))"
proof (induction q tb A t m h rule: intt_while.induct)
  case (1 q tb A t m h)
  show ?case
  proof (cases "1 < m")
    case False
    then show ?thesis
      by (subst intt_while.simps) (simp add: final_heap_def only_changes_refl)
  next
    case True
    let ?r = "efold (intt_group q tb A (m div 2) t) [0..<m div 2] (0, h)"
    have "only_changes A (snd (0::nat, h)) (final_heap snd ?r)"
      by (rule efold_only_changes[where g = snd, OF intt_group_only_changes])
    then have e: "only_changes A h (final_heap snd ?r)" by simp
    show ?thesis
    proof (cases ?r)
      case (Inl eh)
      with e True show ?thesis by (subst intt_while.simps) (simp add: final_heap_def)
    next
      case (Inr st)
      from 1[OF True Inr] e Inr True show ?thesis
        by (subst intt_while.simps) (auto simp: final_heap_def intro: only_changes_trans)
    qed
  qed
qed

lemma only_changes_new:
  assumes "only_changes (length h) (h @ [xs]) h'"
  shows "length h' = Suc (length h) \<and> (\<forall>p<length h. h' ! p = h ! p)"
  using assms by (auto simp: only_changes_def nth_append)

text \<open>
  C9.  Whatever the arguments are, and whether the call returns or raises, \<open>speedup_FNTT\<close>
  and \<open>speedup_INTT\<close> leave every list of the store as it was before the call, the argument
  \<open>a\<close> among them; when they return, the result is a reference to a list that did not exist
  before the call.
\<close>

theorem transforms_keep_input:
  "a < length h \<Longrightarrow>
     (case speedup_FNTT h a q tb of
        Inl (e, h') \<Rightarrow> h' ! a = h ! a \<and> (\<forall>p<length h. h' ! p = h ! p)
      | Inr (A, h') \<Rightarrow> A = length h \<and> A \<noteq> a \<and> length h' = Suc (length h)
            \<and> h' ! a = h ! a \<and> (\<forall>p<length h. h' ! p = h ! p))
   \<and> (case speedup_INTT h a q tb of
        Inl (e, h') \<Rightarrow> h' ! a = h ! a \<and> (\<forall>p<length h. h' ! p = h ! p)
      | Inr (A, h') \<Rightarrow> A = length h \<and> A \<noteq> a \<and> length h' = Suc (length h)
            \<and> h' ! a = h ! a \<and> (\<forall>p<length h. h' ! p = h ! p))"
proof -
  assume a: "a < length h"
  let ?h0 = "h @ [h ! a]"
  let ?n = "length (h ! a)"
  have f: "only_changes (length h) ?h0
      (final_heap (\<lambda>h. h) (fntt_while ?n q tb (length h) ?n 1 ?h0))"
    by (rule fntt_while_only_changes)
  have F: "case speedup_FNTT h a q tb of
        Inl (e, h') \<Rightarrow> h' ! a = h ! a \<and> (\<forall>p<length h. h' ! p = h ! p)
      | Inr (A, h') \<Rightarrow> A = length h \<and> A \<noteq> a \<and> length h' = Suc (length h)
            \<and> h' ! a = h ! a \<and> (\<forall>p<length h. h' ! p = h ! p)"
    using only_changes_new[OF f] a
    by (auto simp: speedup_FNTT_def Let_def final_heap_def split: sum.splits)
  let ?w = "intt_while q tb (length h) 1 ?n ?h0"
  have w: "only_changes (length h) ?h0 (final_heap (\<lambda>h. h) ?w)"
    by (rule intt_while_only_changes)
  have s: "only_changes (length h) h1
      (final_heap (\<lambda>h. h) (efold (intt_scale q c (length h)) [0..<?n] h1))" for h1 c
    by (rule efold_only_changes[where g = "\<lambda>h. h", OF intt_scale_only_changes])
  have I: "case speedup_INTT h a q tb of
        Inl (e, h') \<Rightarrow> h' ! a = h ! a \<and> (\<forall>p<length h. h' ! p = h ! p)
      | Inr (A, h') \<Rightarrow> A = length h \<and> A \<noteq> a \<and> length h' = Suc (length h)
            \<and> h' ! a = h ! a \<and> (\<forall>p<length h. h' ! p = h ! p)"
  proof (cases ?w)
    case (Inl eh)
    with only_changes_new[OF w] a show ?thesis
      by (auto simp: speedup_INTT_def Let_def final_heap_def)
  next
    case (Inr h1)
    with w have w1: "only_changes (length h) ?h0 h1" by (simp add: final_heap_def)
    show ?thesis
    proof (cases "pow_mod (int ?n) (- 1) q")
      case (Inl e)
      with Inr only_changes_new[OF w1] a show ?thesis
        by (auto simp: speedup_INTT_def Let_def)
    next
      case c: (Inr c)
      from only_changes_new[OF only_changes_trans[OF w1 s[of h1 c]]] Inr c a show ?thesis
        by (auto simp: speedup_INTT_def Let_def final_heap_def split: sum.splits)
    qed
  qed
  from F I show ?thesis by simp
qed


lemma fntt_example:
  "speedup_FNTT [[1, 2, 3, 4], [1, 4, 2, 8]] 0 17 1
     = Inr (2, [[1, 2, 3, 4], [1, 4, 2, 8], [15, 11, 13, 16]])"
  by (simp add: speedup_FNTT_def fntt_while.simps fntt_group_def ct_butterfly_def upt_rec Let_def)

lemma inv_mod_4_17: "pow_mod 4 (- 1) 17 = Inr 13"
  by (simp add: pow_mod_def inv_mod_def upto.simps)

lemma intt_example:
  "speedup_INTT [[1, 2, 3, 4], [1, 4, 2, 8]] 0 17 1
     = Inr (2, [[1, 2, 3, 4], [1, 4, 2, 8], [11, 6, 13, 6]])"
  by (simp add: speedup_INTT_def intt_while.simps intt_group_def gs_butterfly_def upt_rec Let_def
      intt_scale_def inv_mod_4_17)

theorem transforms_keep_input_witness:
  "(0::nat) < length [[1, 2, 3, 4], [1, 4, 2, 8 :: int]]
   \<and> speedup_FNTT [[1, 2, 3, 4], [1, 4, 2, 8]] 0 17 1
       = Inr (2, [[1, 2, 3, 4], [1, 4, 2, 8], [15, 11, 13, 16]])
   \<and> speedup_INTT [[1, 2, 3, 4], [1, 4, 2, 8]] 0 17 1
       = Inr (2, [[1, 2, 3, 4], [1, 4, 2, 8], [11, 6, 13, 6]])"
  using transforms_keep_input [of 0 "[[1, 2, 3, 4], [1, 4, 2, 8]]" 17 1] fntt_example intt_example
  by simp

subsection \<open>The loops of the transforms compute the stage functions\<close>

lemma length_pair_upd [simp]: "length (pair_upd F G t j1 k xs) = length xs"
  by (simp add: pair_upd_def)

lemma nth_pair_upd:
  "x < length xs \<Longrightarrow> pair_upd F G t j1 k xs ! x =
     (if j1 \<le> x \<and> x < j1 + k then F (xs ! x) (xs ! (x + t))
      else if j1 + t \<le> x \<and> x < j1 + t + k then G (xs ! (x - t)) (xs ! x)
      else xs ! x)"
  by (simp add: pair_upd_def)

lemma pair_upd_0: "pair_upd F G t j1 0 xs = xs"
  by (rule nth_equalityI) (simp_all add: nth_pair_upd)

lemma pair_upd_Suc:
  assumes "k < t" "j1 + 2 * t \<le> length xs"
  shows "(pair_upd F G t j1 k xs)
           [j1 + k := F (pair_upd F G t j1 k xs ! (j1 + k)) (pair_upd F G t j1 k xs ! (j1 + k + t)),
            j1 + k + t := G (pair_upd F G t j1 k xs ! (j1 + k)) (pair_upd F G t j1 k xs ! (j1 + k + t))]
         = pair_upd F G t j1 (Suc k) xs"
proof (rule nth_equalityI)
  show "length ((pair_upd F G t j1 k xs)
           [j1 + k := F (pair_upd F G t j1 k xs ! (j1 + k)) (pair_upd F G t j1 k xs ! (j1 + k + t)),
            j1 + k + t := G (pair_upd F G t j1 k xs ! (j1 + k)) (pair_upd F G t j1 k xs ! (j1 + k + t))])
     = length (pair_upd F G t j1 (Suc k) xs)" by simp
next
  fix x
  assume "x < length ((pair_upd F G t j1 k xs)
           [j1 + k := F (pair_upd F G t j1 k xs ! (j1 + k)) (pair_upd F G t j1 k xs ! (j1 + k + t)),
            j1 + k + t := G (pair_upd F G t j1 k xs ! (j1 + k)) (pair_upd F G t j1 k xs ! (j1 + k + t))])"
  then have x: "x < length xs" by simp
  have a: "pair_upd F G t j1 k xs ! (j1 + k) = xs ! (j1 + k)"
    using assms by (simp add: nth_pair_upd)
  have b: "pair_upd F G t j1 k xs ! (j1 + k + t) = xs ! (j1 + k + t)"
    using assms by (simp add: nth_pair_upd)
  show "(pair_upd F G t j1 k xs)
           [j1 + k := F (pair_upd F G t j1 k xs ! (j1 + k)) (pair_upd F G t j1 k xs ! (j1 + k + t)),
            j1 + k + t := G (pair_upd F G t j1 k xs ! (j1 + k)) (pair_upd F G t j1 k xs ! (j1 + k + t))] ! x
     = pair_upd F G t j1 (Suc k) xs ! x"
    unfolding a b using x assms
    by (auto simp add: nth_pair_upd nth_list_update)
qed

lemma efold_pair_upd:
  assumes step: "\<And>j h. A < length h \<Longrightarrow> j + t < length (h ! A) \<Longrightarrow>
      f j h = Inr (h[A := (h ! A)[j := F (h ! A ! j) (h ! A ! (j + t)),
                                 j + t := G (h ! A ! j) (h ! A ! (j + t))]])"
    and A: "A < length h" and len: "j1 + 2 * t \<le> length (h ! A)" and k: "k \<le> t"
  shows "efold f [j1..<j1 + k] h = Inr (h[A := pair_upd F G t j1 k (h ! A)])"
  using k
proof (induction k)
  case 0
  show ?case by (simp add: pair_upd_0)
next
  case (Suc k)
  let ?ys = "pair_upd F G t j1 k (h ! A)"
  let ?h1 = "h[A := ?ys]"
  have e: "efold f [j1..<j1 + k] h = Inr ?h1" using Suc by simp
  have k: "k < t" using Suc.prems by simp
  have h1: "A < length ?h1" "?h1 ! A = ?ys" using A by simp_all
  have "j1 + k + t < length (?h1 ! A)" using k len A by simp
  from step[OF h1(1) this] have "f (j1 + k) ?h1 = Inr (h[A := pair_upd F G t j1 (Suc k) (h ! A)])"
    unfolding h1(2) using pair_upd_Suc[OF k len, of F G] by simp
  with e show ?case by (simp add: efold_append)
qed

lemma block_div_mod:
  assumes "2 * t * i \<le> (x::nat)" "x < 2 * t * Suc i"
  shows "x div (2 * t) = i" "x mod (2 * t) = x - 2 * t * i"
proof -
  show d: "x div (2 * t) = i" using assms by (intro div_nat_eqI) simp_all
  show "x mod (2 * t) = x - 2 * t * i"
    using d by (simp add: modulo_nat_def mult.commute)
qed

lemma length_stage_upto [simp]: "length (stage_upto F G t i xs) = length xs"
  by (simp add: stage_upto_def)

lemma nth_stage_upto:
  "x < length xs \<Longrightarrow> stage_upto F G t i xs ! x =
     (if x < 2 * t * i
      then (if x mod (2 * t) < t then F (x div (2 * t)) (xs ! x) (xs ! (x + t))
            else G (x div (2 * t)) (xs ! (x - t)) (xs ! x))
      else xs ! x)"
  by (simp add: stage_upto_def)

lemma stage_upto_0: "stage_upto F G t 0 xs = xs"
  by (rule nth_equalityI) (simp_all add: nth_stage_upto)

lemma stage_upto_Suc:
  assumes "2 * t * Suc i \<le> length xs"
  shows "pair_upd (F i) (G i) t (2 * i * t) t (stage_upto F G t i xs) = stage_upto F G t (Suc i) xs"
proof (rule nth_equalityI)
  show "length (pair_upd (F i) (G i) t (2 * i * t) t (stage_upto F G t i xs))
      = length (stage_upto F G t (Suc i) xs)" by simp
next
  fix x assume "x < length (pair_upd (F i) (G i) t (2 * i * t) t (stage_upto F G t i xs))"
  then have x: "x < length xs" by simp
  let ?ys = "stage_upto F G t i xs"
  have c: "2 * i * t = 2 * t * i" by simp
  have p: "pair_upd (F i) (G i) t (2 * i * t) t ?ys ! x =
     (if 2 * t * i \<le> x \<and> x < 2 * t * i + t then F i (?ys ! x) (?ys ! (x + t))
      else if 2 * t * i + t \<le> x \<and> x < 2 * t * i + t + t then G i (?ys ! (x - t)) (?ys ! x)
      else ?ys ! x)"
    using x unfolding c by (simp add: nth_pair_upd)
  consider (old) "x < 2 * t * i" | (lo) "2 * t * i \<le> x" "x < 2 * t * i + t"
    | (hi) "2 * t * i + t \<le> x" "x < 2 * t * i + t + t" | (rest) "2 * t * i + t + t \<le> x"
    by fastforce
  then show "pair_upd (F i) (G i) t (2 * i * t) t ?ys ! x = stage_upto F G t (Suc i) xs ! x"
  proof cases
    case old
    then have "x < 2 * t * Suc i" by simp
    with old x show ?thesis unfolding p by (simp add: nth_stage_upto)
  next
    case lo
    then have b: "x < 2 * t * Suc i" by simp
    have xt: "x + t < length xs" using lo assms by simp
    have y1: "?ys ! x = xs ! x" using x lo by (simp add: nth_stage_upto)
    have y2: "?ys ! (x + t) = xs ! (x + t)" using xt lo by (simp add: nth_stage_upto)
    have m: "x mod (2 * t) < t" using block_div_mod(2)[OF lo(1) b] lo by simp
    show ?thesis
      unfolding p y1 y2 using lo x b m block_div_mod(1)[OF lo(1) b] by (simp add: nth_stage_upto)
  next
    case hi
    then have a: "2 * t * i \<le> x" and b: "x < 2 * t * Suc i" by simp_all
    have xt: "x - t < length xs" using x by simp
    have y1: "?ys ! x = xs ! x" using x hi by (simp add: nth_stage_upto)
    have "\<not> x - t < 2 * t * i" using hi by linarith
    then have y2: "?ys ! (x - t) = xs ! (x - t)" using xt by (simp add: nth_stage_upto)
    have m: "\<not> x mod (2 * t) < t" using block_div_mod(2)[OF a b] hi by simp
    have n: "\<not> (2 * t * i \<le> x \<and> x < 2 * t * i + t)" using hi by simp
    show ?thesis
      unfolding p y1 y2 using hi x b m n block_div_mod(1)[OF a b] by (simp add: nth_stage_upto)
  next
    case rest
    then have "\<not> x < 2 * t * Suc i" by simp
    with rest x show ?thesis unfolding p by (simp add: nth_stage_upto)
  qed
qed

lemma fold_pair_upd_blocks:
  assumes "2 * t * i \<le> length xs"
  shows "fold (\<lambda>b. pair_upd (F b) (G b) t (2 * b * t) t) [0..<i] xs = stage_upto F G t i xs"
  using assms
proof (induction i)
  case 0
  show ?case by (simp add: stage_upto_0)
next
  case (Suc i)
  then have "fold (\<lambda>b. pair_upd (F b) (G b) t (2 * b * t) t) [0..<i] xs = stage_upto F G t i xs"
    by simp
  with stage_upto_Suc[OF Suc.prems, of F G] show ?case by simp
qed

lemma stage_upto_all:
  assumes "2 * t * m = length xs"
  shows "stage_upto F G t m xs = butterfly_stage F G t xs"
  unfolding butterfly_stage_def stage_upto_def using assms by (simp cong: map_cong)

lemma ct_butterfly_step:
  assumes "q \<noteq> 0" "A < length h" "j + t < length (h ! A)"
  shows "ct_butterfly q S t A j h =
     Inr (h[A := (h ! A)[j := (h ! A ! j + h ! A ! (j + t) * S) mod q,
                        j + t := (h ! A ! j - h ! A ! (j + t) * S) mod q]])"
  using assms by (simp add: ct_butterfly_def Let_def)

lemma gs_butterfly_step:
  assumes "q \<noteq> 0" "A < length h" "j + t < length (h ! A)"
  shows "gs_butterfly q S t A j h =
     Inr (h[A := (h ! A)[j := (h ! A ! j + h ! A ! (j + t)) mod q,
                        j + t := ((h ! A ! j - h ! A ! (j + t)) * S) mod q]])"
  using assms by (simp add: gs_butterfly_def Let_def)

lemma fntt_group_run:
  assumes "q \<noteq> 0" "A < length h" "tb < length h" "tb \<noteq> A"
    and "2 * i * t + 2 * t \<le> length (h ! A)" "m + i < length (h ! tb)"
  shows "fntt_group q tb A m t i h =
     Inr (h[A := pair_upd (\<lambda>u v. (u + v * h ! tb ! (m + i)) mod q)
                          (\<lambda>u v. (u - v * h ! tb ! (m + i)) mod q) t (2 * i * t) t (h ! A)])"
proof -
  have "efold (ct_butterfly q (h ! tb ! (m + i)) t A) [2 * i * t..<2 * i * t + t] h =
     Inr (h[A := pair_upd (\<lambda>u v. (u + v * h ! tb ! (m + i)) mod q)
                          (\<lambda>u v. (u - v * h ! tb ! (m + i)) mod q) t (2 * i * t) t (h ! A)])"
    by (rule efold_pair_upd[OF ct_butterfly_step[OF assms(1)] assms(2,5)]) simp_all
  with assms(6) show ?thesis by (simp add: fntt_group_def Let_def)
qed

lemma fntt_stage_run:
  assumes "q \<noteq> 0" "A < length h" "tb < length h" "tb \<noteq> A"
    and "2 * t * m \<le> length (h ! A)" "m + m \<le> length (h ! tb)" "i \<le> m"
  shows "efold (fntt_group q tb A m t) [0..<i] h =
     Inr (h[A := fold (\<lambda>b. pair_upd (\<lambda>u v. (u + v * h ! tb ! (m + b)) mod q)
                                    (\<lambda>u v. (u - v * h ! tb ! (m + b)) mod q) t (2 * b * t) t)
                     [0..<i] (h ! A)])"
  using assms(7)
proof (induction i)
  case 0
  show ?case by simp
next
  case (Suc i)
  let ?ys = "fold (\<lambda>b. pair_upd (\<lambda>u v. (u + v * h ! tb ! (m + b)) mod q)
                                 (\<lambda>u v. (u - v * h ! tb ! (m + b)) mod q) t (2 * b * t) t)
                     [0..<i] (h ! A)"
  let ?h1 = "h[A := ?ys]"
  have e: "efold (fntt_group q tb A m t) [0..<i] h = Inr ?h1" using Suc by simp
  have l: "length ?ys = length (h ! A)"
    by (rule fold_invariant[where Q = "\<lambda>_. True"]) simp_all
  have i: "i < m" using Suc.prems by simp
  then have "2 * t * Suc i \<le> 2 * t * m" by (intro mult_le_mono2) simp
  then have b: "2 * i * t + 2 * t \<le> length (?h1 ! A)"
    using assms(2,5) l by (simp add: algebra_simps)
  have tb: "?h1 ! tb = h ! tb" using assms(4) by simp
  have "m + i < length (?h1 ! tb)" using i assms(6) unfolding tb by simp
  from fntt_group_run[OF assms(1) _ _ assms(4) b this] assms(2,3)
  have "fntt_group q tb A m t i ?h1 =
     Inr (h[A := pair_upd (\<lambda>u v. (u + v * h ! tb ! (m + i)) mod q)
                          (\<lambda>u v. (u - v * h ! tb ! (m + i)) mod q) t (2 * i * t) t ?ys])"
    unfolding tb by simp
  with e show ?case by (simp add: efold_append)
qed

lemma fntt_stage:
  assumes "q \<noteq> 0" "A < length h" "tb < length h" "tb \<noteq> A"
    and "2 * t * m = length (h ! A)" "m + m \<le> length (h ! tb)"
  shows "efold (fntt_group q tb A m t) [0..<m] h = Inr (h[A := ct_stage q (h ! tb) m t (h ! A)])"
proof -
  have l: "2 * t * m \<le> length (h ! A)" using assms(5) by simp
  from fntt_stage_run[OF assms(1-4) l assms(6) order_refl] show ?thesis
    unfolding ct_stage_def
    by (simp add: fold_pair_upd_blocks[OF l] stage_upto_all[OF assms(5)])
qed

lemma intt_group_run:
  assumes "q \<noteq> 0" "A < length h" "tb < length h" "tb \<noteq> A"
    and "j1 + 2 * t \<le> length (h ! A)" "hm + i < length (h ! tb)"
  shows "intt_group q tb A hm t i (j1, h) =
     Inr (j1 + 2 * t,
          h[A := pair_upd (\<lambda>u v. (u + v) mod q)
                          (\<lambda>u v. ((u - v) * h ! tb ! (hm + i)) mod q) t j1 t (h ! A)])"
proof -
  have "efold (gs_butterfly q (h ! tb ! (hm + i)) t A) [j1..<j1 + t] h =
     Inr (h[A := pair_upd (\<lambda>u v. (u + v) mod q)
                          (\<lambda>u v. ((u - v) * h ! tb ! (hm + i)) mod q) t j1 t (h ! A)])"
    by (rule efold_pair_upd[OF gs_butterfly_step[OF assms(1)] assms(2,5)]) simp_all
  with assms(6) show ?thesis by (simp add: intt_group_def Let_def)
qed

lemma intt_stage_run:
  assumes "q \<noteq> 0" "A < length h" "tb < length h" "tb \<noteq> A"
    and "2 * t * hm \<le> length (h ! A)" "hm + hm \<le> length (h ! tb)" "i \<le> hm"
  shows "efold (intt_group q tb A hm t) [0..<i] (0, h) =
     Inr (2 * i * t,
          h[A := fold (\<lambda>b. pair_upd (\<lambda>u v. (u + v) mod q)
                                    (\<lambda>u v. ((u - v) * h ! tb ! (hm + b)) mod q) t (2 * b * t) t)
                     [0..<i] (h ! A)])"
  using assms(7)
proof (induction i)
  case 0
  show ?case by simp
next
  case (Suc i)
  let ?ys = "fold (\<lambda>b. pair_upd (\<lambda>u v. (u + v) mod q)
                                 (\<lambda>u v. ((u - v) * h ! tb ! (hm + b)) mod q) t (2 * b * t) t)
                     [0..<i] (h ! A)"
  let ?h1 = "h[A := ?ys]"
  have e: "efold (intt_group q tb A hm t) [0..<i] (0, h) = Inr (2 * i * t, ?h1)"
    using Suc by simp
  have l: "length ?ys = length (h ! A)"
    by (rule fold_invariant[where Q = "\<lambda>_. True"]) simp_all
  have i: "i < hm" using Suc.prems by simp
  then have "2 * t * Suc i \<le> 2 * t * hm" by (intro mult_le_mono2) simp
  then have b: "2 * i * t + 2 * t \<le> length (?h1 ! A)"
    using assms(2,5) l by (simp add: algebra_simps)
  have tb: "?h1 ! tb = h ! tb" using assms(4) by simp
  have "hm + i < length (?h1 ! tb)" using i assms(6) unfolding tb by simp
  from intt_group_run[OF assms(1) _ _ assms(4) b this] assms(2,3)
  have "intt_group q tb A hm t i (2 * i * t, ?h1) =
     Inr (2 * i * t + 2 * t,
          h[A := pair_upd (\<lambda>u v. (u + v) mod q)
                          (\<lambda>u v. ((u - v) * h ! tb ! (hm + i)) mod q) t (2 * i * t) t ?ys])"
    unfolding tb by simp
  with e show ?case by (simp add: efold_append)
qed

lemma intt_stage:
  assumes "q \<noteq> 0" "A < length h" "tb < length h" "tb \<noteq> A"
    and "2 * t * hm = length (h ! A)" "hm + hm \<le> length (h ! tb)"
  shows "\<exists>j. efold (intt_group q tb A hm t) [0..<hm] (0, h)
             = Inr (j, h[A := gs_stage q (h ! tb) hm t (h ! A)])"
proof -
  have l: "2 * t * hm \<le> length (h ! A)" using assms(5) by simp
  from intt_stage_run[OF assms(1-4) l assms(6) order_refl] show ?thesis
    unfolding gs_stage_def
    by (simp add: fold_pair_upd_blocks[OF l] stage_upto_all[OF assms(5)])
qed

lemma length_butterfly_stage [simp]: "length (butterfly_stage F G t xs) = length xs"
  by (simp add: butterfly_stage_def)

lemma length_ct_stage [simp]: "length (ct_stage q tbl m t xs) = length xs"
  by (simp add: ct_stage_def)

lemma length_gs_stage [simp]: "length (gs_stage q tbl m t xs) = length xs"
  by (simp add: gs_stage_def)

lemma length_ct_stages [simp]: "length (ct_stages q tbl s m xs) = length xs"
  by (induction s arbitrary: m xs) simp_all

lemma length_gs_stages [simp]: "length (gs_stages q tbl s t xs) = length xs"
  by (induction s arbitrary: t xs) simp_all

lemma fntt_while_run:
  assumes "q \<noteq> 0" "tb \<noteq> A" "0 < m"
  shows "A < length h \<Longrightarrow> tb < length h \<Longrightarrow> length (h ! A) = m * 2 ^ s \<Longrightarrow>
     m * 2 ^ s \<le> length (h ! tb) \<Longrightarrow> 0 < m \<Longrightarrow>
     fntt_while (m * 2 ^ s) q tb A (2 ^ s) m h = Inr (h[A := ct_stages q (h ! tb) s m (h ! A)])"
proof (induction s arbitrary: m h)
  case 0
  then show ?case by (subst fntt_while.simps) simp
next
  case (Suc s)
  have "1 < (2::nat) ^ Suc s" by (rule one_less_power) simp_all
  then have lt: "m < m * 2 ^ Suc s" using Suc.prems(5) by (simp del: power_Suc)
  have t: "(2::nat) ^ Suc s div 2 = 2 ^ s" by simp
  have a: "2 * 2 ^ s * m = length (h ! A)" using Suc.prems(3) by simp
  have b: "m + m \<le> length (h ! tb)"
  proof -
    have "2 \<le> (2::nat) ^ Suc s" by simp
    then have "m * 2 \<le> m * 2 ^ Suc s" by (rule mult_le_mono2)
    with Suc.prems(4) show ?thesis by linarith
  qed
  let ?h1 = "h[A := ct_stage q (h ! tb) m (2 ^ s) (h ! A)]"
  have st: "efold (fntt_group q tb A m (2 ^ s)) [0..<m] h = Inr ?h1"
    by (rule fntt_stage[OF assms(1) Suc.prems(1,2) assms(2) a b])
  have n: "m * 2 ^ Suc s = (2 * m) * 2 ^ s" by simp
  have tbe: "?h1 ! tb = h ! tb" using assms(2) by simp
  have "fntt_while ((2 * m) * 2 ^ s) q tb A (2 ^ s) (2 * m) ?h1
      = Inr (?h1[A := ct_stages q (?h1 ! tb) s (2 * m) (?h1 ! A)])"
    using Suc.prems by (intro Suc.IH) (simp_all add: tbe)
  then have r: "fntt_while (m * 2 ^ Suc s) q tb A (2 ^ s) (2 * m) ?h1
      = Inr (h[A := ct_stages q (h ! tb) (Suc s) m (h ! A)])"
    unfolding n tbe using Suc.prems(1) by simp
  show ?case
    by (subst fntt_while.simps) (simp only: lt Suc.prems(5) t st r simp_thms if_True sum.case)
qed

lemma intt_while_run:
  assumes "q \<noteq> 0" "tb \<noteq> A"
  shows "A < length h \<Longrightarrow> tb < length h \<Longrightarrow> length (h ! A) = t * 2 ^ s \<Longrightarrow>
     t * 2 ^ s \<le> length (h ! tb) \<Longrightarrow> 0 < t \<Longrightarrow>
     intt_while q tb A t (2 ^ s) h = Inr (h[A := gs_stages q (h ! tb) s t (h ! A)])"
proof (induction s arbitrary: t h)
  case 0
  then show ?case by (subst intt_while.simps) simp
next
  case (Suc s)
  have lt: "1 < (2::nat) ^ Suc s" by (rule one_less_power) simp_all
  have hm: "(2::nat) ^ Suc s div 2 = 2 ^ s" by simp
  have a: "2 * t * 2 ^ s = length (h ! A)" using Suc.prems(3) by simp
  have b: "2 ^ s + 2 ^ s \<le> length (h ! tb)"
  proof -
    have "1 * (2::nat) ^ Suc s \<le> t * 2 ^ Suc s" using Suc.prems(5) by (intro mult_le_mono1) simp
    moreover have "(2::nat) ^ s + 2 ^ s = 1 * 2 ^ Suc s" by simp
    ultimately show ?thesis using Suc.prems(4) by linarith
  qed
  let ?h1 = "h[A := gs_stage q (h ! tb) (2 ^ s) t (h ! A)]"
  obtain j where st: "efold (intt_group q tb A (2 ^ s) t) [0..<2 ^ s] (0, h) = Inr (j, ?h1)"
    using intt_stage[OF assms(1) Suc.prems(1,2) assms(2) a b] by blast
  have tbe: "?h1 ! tb = h ! tb" using assms(2) by simp
  have "intt_while q tb A (2 * t) (2 ^ s) ?h1
      = Inr (?h1[A := gs_stages q (?h1 ! tb) s (2 * t) (?h1 ! A)])"
    using Suc.prems by (intro Suc.IH) (simp_all add: tbe)
  then have r: "intt_while q tb A (2 * t) (2 ^ s) ?h1
      = Inr (h[A := gs_stages q (h ! tb) (Suc s) t (h ! A)])"
    unfolding tbe using Suc.prems(1) by simp
  show ?case
    by (subst intt_while.simps) (simp only: lt hm st r if_True sum.case snd_conv)
qed

lemma intt_scale_run:
  assumes "q \<noteq> 0" "A < length h" "i \<le> length (h ! A)"
  shows "efold (intt_scale q c A) [0..<i] h =
     Inr (h[A := map (\<lambda>x. if x < i then (h ! A ! x * c) mod q else h ! A ! x)
                    [0..<length (h ! A)]])"
  using assms(3)
proof (induction i)
  case 0
  show ?case by (simp add: map_nth)
next
  case (Suc i)
  let ?ys = "map (\<lambda>x. if x < i then (h ! A ! x * c) mod q else h ! A ! x) [0..<length (h ! A)]"
  have e: "efold (intt_scale q c A) [0..<i] h = Inr (h[A := ?ys])" using Suc by simp
  have i: "i < length (h ! A)" using Suc.prems by simp
  have "?ys[i := (?ys ! i * c) mod q]
      = map (\<lambda>x. if x < Suc i then (h ! A ! x * c) mod q else h ! A ! x) [0..<length (h ! A)]"
    using i by (intro nth_equalityI) (auto simp: nth_list_update less_Suc_eq)
  then have "intt_scale q c A i (h[A := ?ys]) =
     Inr (h[A := map (\<lambda>x. if x < Suc i then (h ! A ! x * c) mod q else h ! A ! x)
                    [0..<length (h ! A)]])"
    using assms(1,2) i by (simp add: intt_scale_def)
  with e show ?case by (simp add: efold_append)
qed

lemma speedup_FNTT_run:
  assumes "q \<noteq> 0" "a < length h" "tb < length h"
    and "length (h ! a) = 2 ^ k" "2 ^ k \<le> length (h ! tb)"
  shows "speedup_FNTT h a q tb = Inr (length h, h @ [ct_stages q (h ! tb) k 1 (h ! a)])"
proof -
  let ?h0 = "h @ [h ! a]"
  have tb: "?h0 ! tb = h ! tb" using assms(3) by (simp add: nth_append)
  have A: "?h0 ! length h = h ! a" by simp
  have "fntt_while (1 * 2 ^ k) q tb (length h) (2 ^ k) 1 ?h0
      = Inr (?h0[length h := ct_stages q (?h0 ! tb) k 1 (?h0 ! length h)])"
    using assms by (intro fntt_while_run) (simp_all add: nth_append)
  then have "fntt_while (2 ^ k) q tb (length h) (2 ^ k) 1 ?h0
      = Inr (h @ [ct_stages q (h ! tb) k 1 (h ! a)])"
    unfolding tb A by simp
  then show ?thesis by (simp add: speedup_FNTT_def Let_def assms(4))
qed

lemma intt_scale_all:
  assumes "q \<noteq> 0" "A < length h"
  shows "efold (intt_scale q c A) [0..<length (h ! A)] h =
     Inr (h[A := map (\<lambda>v. (v * c) mod q) (h ! A)])"
proof -
  have "map (\<lambda>x. if x < length (h ! A) then (h ! A ! x * c) mod q else h ! A ! x)
          [0..<length (h ! A)] = map (\<lambda>v. (v * c) mod q) (h ! A)"
    by (intro nth_equalityI) simp_all
  with intt_scale_run[OF assms order_refl, of c] show ?thesis by simp
qed

lemma speedup_INTT_run:
  assumes "q \<noteq> 0" "a < length h" "tb < length h"
    and "length (h ! a) = 2 ^ k" "2 ^ k \<le> length (h ! tb)"
    and "pow_mod (int (2 ^ k)) (- 1) q = Inr c"
  shows "speedup_INTT h a q tb =
     Inr (length h, h @ [map (\<lambda>v. (v * c) mod q) (gs_stages q (h ! tb) k 1 (h ! a))])"
proof -
  let ?h0 = "h @ [h ! a]"
  define ys where "ys = gs_stages q (h ! tb) k 1 (h ! a)"
  have ly: "length ys = 2 ^ k" by (simp add: ys_def assms(4))
  have tb: "?h0 ! tb = h ! tb" using assms(3) by (simp add: nth_append)
  have A: "?h0 ! length h = h ! a" by simp
  have "intt_while q tb (length h) 1 (2 ^ k) ?h0
      = Inr (?h0[length h := gs_stages q (?h0 ! tb) k 1 (?h0 ! length h)])"
    using assms by (intro intt_while_run) (simp_all add: nth_append)
  then have w: "intt_while q tb (length h) 1 (2 ^ k) ?h0 = Inr (h @ [ys])"
    unfolding tb A ys_def by simp
  have "efold (intt_scale q c (length h)) [0..<length ((h @ [ys]) ! length h)] (h @ [ys]) =
     Inr ((h @ [ys])[length h := map (\<lambda>v. (v * c) mod q) ((h @ [ys]) ! length h)])"
    by (rule intt_scale_all[OF assms(1)]) simp
  then have sc: "efold (intt_scale q c (length h)) [0..<2 ^ k] (h @ [ys]) =
     Inr (h @ [map (\<lambda>v. (v * c) mod q) ys])"
    by (simp add: ly)
  show ?thesis
    unfolding speedup_INTT_def Let_def assms(4) w ys_def[symmetric]
    using assms(6) sc by simp
qed

subsection \<open>The inverse transform undoes the forward transform\<close>

lemma nth_butterfly_stage:
  "x < length xs \<Longrightarrow> butterfly_stage F G t xs ! x =
     (if x mod (2 * t) < t then F (x div (2 * t)) (xs ! x) (xs ! (x + t))
      else G (x div (2 * t)) (xs ! (x - t)) (xs ! x))"
  by (simp add: butterfly_stage_def)

lemma lower_index:
  assumes "0 < t" "(x::nat) < 2 * t * m" "x mod (2 * t) < t"
  shows "x + t < 2 * t * m" "(x + t) mod (2 * t) = x mod (2 * t) + t"
    "(x + t) div (2 * t) = x div (2 * t)" "x div (2 * t) < m"
proof -
  let ?i = "x div (2 * t)"
  have x: "x = 2 * t * ?i + x mod (2 * t)" by simp
  show i: "?i < m" using assms(2) by (metis less_mult_imp_div_less mult.commute)
  have a: "2 * t * ?i \<le> x + t" using x by linarith
  have b: "x + t < 2 * t * Suc ?i" using x assms(3) by (simp add: algebra_simps) 
  show "(x + t) mod (2 * t) = x mod (2 * t) + t"
    using block_div_mod(2)[OF a b] x by linarith
  show "(x + t) div (2 * t) = x div (2 * t)"
    by (rule block_div_mod(1)[OF a b])
  have "2 * t * Suc ?i \<le> 2 * t * m" using i by (intro mult_le_mono2) simp
  with b show "x + t < 2 * t * m" by linarith
qed

lemma upper_index:
  assumes "0 < t" "\<not> (x::nat) mod (2 * t) < t"
  shows "t \<le> x" "(x - t) mod (2 * t) = x mod (2 * t) - t"
    "(x - t) div (2 * t) = x div (2 * t)" "(x - t) mod (2 * t) < t" "x - t + t = x"
proof -
  let ?i = "x div (2 * t)"
  have x: "x = 2 * t * ?i + x mod (2 * t)" by simp
  have l: "x mod (2 * t) < 2 * t" using assms(1) by simp
  show t: "t \<le> x" using x assms(2) by linarith
  have a: "2 * t * ?i \<le> x - t" using x assms(2) by linarith
  have b: "x - t < 2 * t * Suc ?i" using x l by (simp add: algebra_simps)
  show m: "(x - t) mod (2 * t) = x mod (2 * t) - t"
    using block_div_mod(2)[OF a b] x assms(2) by linarith
  show "(x - t) div (2 * t) = x div (2 * t)"
    by (rule block_div_mod(1)[OF a b])
  show "(x - t) mod (2 * t) < t" unfolding m using l assms(2) by linarith
  show "x - t + t = x" using t by simp
qed

lemma mod_cancel_unit:
  assumes "(s * s') mod q = 1 mod (q::int)"
  shows "(y * s * s') mod q = y mod q"
proof -
  have "(y * s * s') mod q = (y * ((s * s') mod q)) mod q"
    by (simp add: mod_mult_right_eq mult.assoc)
  also have "\<dots> = (y * (1 mod q)) mod q" by (simp only: assms)
  also have "\<dots> = y mod q" by (simp add: mod_mult_right_eq)
  finally show ?thesis .
qed

lemma butterfly_sum:
  "((c * ((u + w) mod q)) mod q + (c * ((u - w) mod q)) mod q) mod q = (2 * c * u) mod (q::int)"
proof -
  have "((c * ((u + w) mod q)) mod q + (c * ((u - w) mod q)) mod q) mod q
      = (c * (u + w) + c * (u - w)) mod q"
    by (simp add: mod_simps)
  also have "c * (u + w) + c * (u - w) = 2 * c * u" by (simp add: algebra_simps)
  finally show ?thesis .
qed

lemma butterfly_diff:
  "(((c * ((u + w) mod q)) mod q - (c * ((u - w) mod q)) mod q) * s') mod q
     = (2 * c * w * s') mod (q::int)"
proof -
  have "(((c * ((u + w) mod q)) mod q - (c * ((u - w) mod q)) mod q) * s') mod q
      = ((((c * ((u + w) mod q)) mod q - (c * ((u - w) mod q)) mod q) mod q) * s') mod q"
    by (simp only: mod_mult_left_eq)
  also have "((c * ((u + w) mod q)) mod q - (c * ((u - w) mod q)) mod q) mod q
      = (c * (u + w) - c * (u - w)) mod q"
    by (simp add: mod_simps)
  also have "(((c * (u + w) - c * (u - w)) mod q) * s') mod q
      = ((c * (u + w) - c * (u - w)) * s') mod q"
    by (simp only: mod_mult_left_eq)
  also have "(c * (u + w) - c * (u - w)) * s' = 2 * c * w * s'" by (simp add: algebra_simps)
  finally show ?thesis .
qed

lemma stage_round_trip:
  assumes t: "0 < t" and len: "length xs = 2 * t * m"
    and inv: "\<And>i. i < m \<Longrightarrow> (T ! (m + i) * Ti ! (m + i)) mod q = 1 mod q"
  shows "gs_stage q Ti m t (map (\<lambda>v. (c * v) mod q) (ct_stage q T m t xs))
     = map (\<lambda>v. (2 * c * v) mod q) xs"
proof (rule nth_equalityI)
  show "length (gs_stage q Ti m t (map (\<lambda>v. (c * v) mod q) (ct_stage q T m t xs)))
      = length (map (\<lambda>v. (2 * c * v) mod q) xs)" by simp
next
  fix x
  assume "x < length (gs_stage q Ti m t (map (\<lambda>v. (c * v) mod q) (ct_stage q T m t xs)))"
  then have x: "x < length xs" by simp
  then have x': "x < 2 * t * m" using len by simp
  let ?ys = "ct_stage q T m t xs"
  let ?zs = "map (\<lambda>v. (c * v) mod q) ?ys"
  let ?i = "x div (2 * t)"
  show "gs_stage q Ti m t ?zs ! x = map (\<lambda>v. (2 * c * v) mod q) xs ! x"
  proof (cases "x mod (2 * t) < t")
    case True
    note li = lower_index[OF t x' True]
    have xt: "x + t < length xs" using li(1) len by simp
    have up: "\<not> (x + t) mod (2 * t) < t" using li(2) by simp
    have y1: "?ys ! x = (xs ! x + xs ! (x + t) * T ! (m + ?i)) mod q"
      using x True by (simp add: ct_stage_def nth_butterfly_stage)
    have y2: "?ys ! (x + t) = (xs ! x - xs ! (x + t) * T ! (m + ?i)) mod q"
      using xt up li(3) by (simp add: ct_stage_def nth_butterfly_stage)
    have "gs_stage q Ti m t ?zs ! x = (?zs ! x + ?zs ! (x + t)) mod q"
      using x True by (simp add: gs_stage_def nth_butterfly_stage)
    also have "\<dots> = ((c * ?ys ! x) mod q + (c * ?ys ! (x + t)) mod q) mod q"
      using x xt by simp
    also have "\<dots> = (2 * c * xs ! x) mod q"
      unfolding y1 y2 by (rule butterfly_sum)
    finally show ?thesis using x by simp
  next
    case False
    note ui = upper_index[OF t False]
    have xt: "x - t < length xs" using x by simp
    have i: "?i < m" using x' by (metis less_mult_imp_div_less mult.commute)
    have y1: "?ys ! (x - t) = (xs ! (x - t) + xs ! x * T ! (m + ?i)) mod q"
      using xt ui by (simp add: ct_stage_def nth_butterfly_stage)
    have y2: "?ys ! x = (xs ! (x - t) - xs ! x * T ! (m + ?i)) mod q"
      using x False by (simp add: ct_stage_def nth_butterfly_stage)
    have "gs_stage q Ti m t ?zs ! x = ((?zs ! (x - t) - ?zs ! x) * Ti ! (m + ?i)) mod q"
      using x False by (simp add: gs_stage_def nth_butterfly_stage)
    also have "\<dots> = (((c * ?ys ! (x - t)) mod q - (c * ?ys ! x) mod q) * Ti ! (m + ?i)) mod q"
      using x xt by simp
    also have "\<dots> = (2 * c * (xs ! x * T ! (m + ?i)) * Ti ! (m + ?i)) mod q"
      unfolding y1 y2 by (rule butterfly_diff)
    also have "\<dots> = ((2 * c * xs ! x) * T ! (m + ?i) * Ti ! (m + ?i)) mod q"
      by (simp add: mult.assoc)
    also have "\<dots> = (2 * c * xs ! x) mod q"
      by (rule mod_cancel_unit[OF inv[OF i]])
    finally show ?thesis using x by simp
  qed
qed

lemma stages_round_trip:
  assumes inv: "\<And>x. 1 \<le> x \<Longrightarrow> x < 2 ^ (a + s) \<Longrightarrow> (T ! x * Ti ! x) mod q = 1 mod q"
  shows "length xs = 2 ^ (a + s) \<Longrightarrow>
     gs_stages q Ti (a + s) 1 (map (\<lambda>v. (c * v) mod q) (ct_stages q T s (2 ^ a) xs))
       = gs_stages q Ti a (2 ^ s) (map (\<lambda>v. (2 ^ s * c * v) mod q) xs)"
  using inv
proof (induction s arbitrary: a xs c)
  case 0
  show ?case by simp
next
  case (Suc s)
  let ?ys = "ct_stage q T (2 ^ a) (2 ^ s) xs"
  have e: "Suc a + s = a + Suc s" by simp
  have l: "length ?ys = 2 ^ (Suc a + s)" using Suc.prems(1) by simp
  have "gs_stages q Ti (Suc a + s) 1 (map (\<lambda>v. (c * v) mod q) (ct_stages q T s (2 ^ Suc a) ?ys))
       = gs_stages q Ti (Suc a) (2 ^ s) (map (\<lambda>v. (2 ^ s * c * v) mod q) ?ys)"
    using Suc.prems(2) by (intro Suc.IH[OF l]) (simp_all only: e)
  also have "\<dots> = gs_stages q Ti a (2 * 2 ^ s)
      (gs_stage q Ti (2 ^ a) (2 ^ s) (map (\<lambda>v. (2 ^ s * c * v) mod q) ?ys))"
    by simp
  also have "gs_stage q Ti (2 ^ a) (2 ^ s) (map (\<lambda>v. (2 ^ s * c * v) mod q) ?ys)
      = map (\<lambda>v. (2 * (2 ^ s * c) * v) mod q) xs"
  proof (rule stage_round_trip)
    show "0 < (2::nat) ^ s" by simp
    show "length xs = 2 * 2 ^ s * 2 ^ a" using Suc.prems(1) by (simp add: power_add)
    fix i :: nat assume "i < 2 ^ a"
    then have "2 ^ a + i < 2 ^ a + 2 ^ a" by simp
    also have "\<dots> \<le> 2 ^ (a + Suc s)"
    proof -
      have "1 * (2::nat) ^ a \<le> 2 ^ s * 2 ^ a" by (intro mult_le_mono1) simp
      then have "(2::nat) ^ a \<le> 2 ^ a * 2 ^ s" by (simp add: mult.commute)
      then show ?thesis unfolding power_add power_Suc by linarith
    qed
    finally have u: "2 ^ a + i < 2 ^ (a + Suc s)" .
    have "1 \<le> (2::nat) ^ a" by simp
    then have "1 \<le> 2 ^ a + i" by linarith
    from Suc.prems(2)[OF this u]
    show "(T ! (2 ^ a + i) * Ti ! (2 ^ a + i)) mod q = 1 mod q" .
  qed
  finally show ?case by (simp add: e mult.assoc)
qed

lemma residues_butterfly_stage:
  assumes "0 < q" "\<And>i u v. 0 \<le> F i u v \<and> F i u v < q" "\<And>i u v. 0 \<le> G i u v \<and> G i u v < q"
  shows "residues q (butterfly_stage F G t xs)"
  using assms by (auto simp: residues_def butterfly_stage_def)

lemma residues_ct_stage: "0 < q \<Longrightarrow> residues q (ct_stage q T m t xs)"
  unfolding ct_stage_def by (rule residues_butterfly_stage) simp_all

lemma residues_ct_stages:
  "0 < q \<Longrightarrow> residues q xs \<Longrightarrow> residues q (ct_stages q T s m xs)"
  by (induction s arbitrary: m xs) (simp_all add: residues_ct_stage)

lemma residues_map_mod: "residues q xs \<Longrightarrow> map (\<lambda>v. (1 * v) mod q) xs = xs"
  by (induction xs) (simp_all add: residues_def)

lemma inv_mod_Some:
  assumes "0 < q" "(b * y) mod q = 1 mod q"
  shows "\<exists>c. inv_mod b q = Some c \<and> (b * c) mod q = 1 mod q"
proof -
  let ?P = "\<lambda>x. (b * x) mod q = 1 mod q"
  have "y mod q \<in> set [0..q - 1]" using assms(1) by simp
  moreover have "?P (y mod q)" using assms(2) by (simp add: mod_mult_right_eq)
  ultimately have "find ?P [0..q - 1] \<noteq> None" unfolding find_None_iff by blast
  then obtain c where c: "find ?P [0..q - 1] = Some c" by blast
  then have "?P c" unfolding find_Some_iff by blast
  with c assms(1) show ?thesis by (simp add: inv_mod_def)
qed

lemma pow_mod_inverse:
  assumes "0 < q" "(b * y) mod q = 1 mod q"
  shows "\<exists>c. pow_mod b (- 1) q = Inr c \<and> (b * c) mod q = 1 mod q"
proof -
  from inv_mod_Some[OF assms] obtain c0 where c0: "inv_mod b q = Some c0"
    "(b * c0) mod q = 1 mod q" by blast
  then have "pow_mod b (- 1) q = Inr (c0 mod q)" using assms(1) by (simp add: pow_mod_def)
  moreover have "(b * (c0 mod q)) mod q = 1 mod q" using c0(2) by (simp add: mod_mult_right_eq)
  ultimately show ?thesis by blast
qed

lemma one_mod: "1 < (q::int) \<Longrightarrow> 1 mod q = 1"
  by (rule mod_pos_pos_trivial) simp_all

lemma power_table_run:
  assumes "1 < (q::int)" "j < n"
  shows "fold (\<lambda>i tb. tb[i := (tb ! (i - 1) * x) mod q]) [1..<Suc j] (replicate n 1)
     = map (\<lambda>i. if i \<le> j then x ^ i mod q else 1) [0..<n]"
  using assms(2)
proof (induction j)
  case 0
  show ?case using one_mod[OF assms(1)] by (intro nth_equalityI) simp_all
next
  case (Suc j)
  let ?tb = "map (\<lambda>i. if i \<le> j then x ^ i mod q else 1) [0..<n]"
  have e: "fold (\<lambda>i tb. tb[i := (tb ! (i - 1) * x) mod q]) [1..<Suc j] (replicate n 1) = ?tb"
    using Suc by simp
  have u: "[1..<Suc (Suc j)] = [1..<Suc j] @ [Suc j]" by simp
  have j: "j < n" using Suc.prems by simp
  have "(?tb ! j * x) mod q = x ^ Suc j mod q"
    using j by (simp add: mod_mult_right_eq mod_mult_left_eq mult.commute)
  then have "?tb[Suc j := (?tb ! (Suc j - 1) * x) mod q]
      = map (\<lambda>i. if i \<le> Suc j then x ^ i mod q else 1) [0..<n]"
    using Suc.prems by (intro nth_equalityI) (auto simp: nth_list_update le_Suc_eq simp del: power_Suc)
  then show ?case unfolding u fold_append comp_apply e by simp
qed

lemma power_table_eq:
  assumes "1 < q"
  shows "power_table n x q = map (\<lambda>i. x ^ i mod q) [0..<n]"
proof (cases n)
  case 0
  then show ?thesis by (simp add: power_table_def)
next
  case (Suc j)
  then have "j < n" by simp
  from power_table_run[OF assms this, of x] Suc show ?thesis
    unfolding power_table_def by (simp cong: map_cong del: upt_Suc)
qed

lemma usage_tables_run:
  assumes q: "1 < q" and inv: "(psi * y) mod q = 1 mod q"
  shows "\<exists>T Ti psi_inv. usage_tables (2 ^ k) q psi = Inr (T, Ti)
     \<and> length T = 2 ^ k \<and> length Ti = 2 ^ k \<and> (psi * psi_inv) mod q = 1
     \<and> (\<forall>x<2 ^ k. T ! x = psi ^ reverse_bits k x mod q
                    \<and> Ti ! x = psi_inv ^ reverse_bits k x mod q)"
proof -
  have q0: "0 < q" using q by simp
  from pow_mod_inverse[OF q0 inv] obtain c where c: "pow_mod psi (- 1) q = Inr c"
    "(psi * c) mod q = 1 mod q" by blast
  have tabs: "\<exists>b. bit_reverse_order (power_table (2 ^ k) x q) = Inr b \<and> length b = 2 ^ k
      \<and> (\<forall>i<2 ^ k. b ! i = x ^ reverse_bits k i mod q)" for x
  proof -
    have l: "length (power_table (2 ^ k) x q) = 2 ^ k" by (simp add: power_table_eq[OF q])
    from bit_reverse_order_pow2[OF l] obtain b where b:
      "bit_reverse_order (power_table (2 ^ k) x q) = Inr b" "length b = 2 ^ k"
      "\<forall>i<2 ^ k. b ! reverse_bits k i = power_table (2 ^ k) x q ! i" by blast
    have "b ! i = x ^ reverse_bits k i mod q" if "i < 2 ^ k" for i
    proof -
      have r: "reverse_bits k i < 2 ^ k" by (rule reverse_bits_less)
      with b(3) have "b ! reverse_bits k (reverse_bits k i)
          = power_table (2 ^ k) x q ! reverse_bits k i" by blast
      with r show ?thesis
        by (simp add: reverse_bits_involution[OF that] power_table_eq[OF q])
    qed
    with b show ?thesis by blast
  qed
  from tabs[of psi] obtain T where T: "bit_reverse_order (power_table (2 ^ k) psi q) = Inr T"
    "length T = 2 ^ k" "\<forall>i<2 ^ k. T ! i = psi ^ reverse_bits k i mod q" by blast
  from tabs[of c] obtain Ti where Ti: "bit_reverse_order (power_table (2 ^ k) c q) = Inr Ti"
    "length Ti = 2 ^ k" "\<forall>i<2 ^ k. Ti ! i = c ^ reverse_bits k i mod q" by blast
  have "usage_tables (2 ^ k) q psi = Inr (T, Ti)"
    by (simp add: usage_tables_def c(1) T(1) Ti(1))
  moreover have "(psi * c) mod q = 1" using c(2) one_mod[OF q] by simp
  ultimately show ?thesis using T(2,3) Ti(2,3) by blast
qed

lemma table_products:
  assumes "(psi * c) mod q = (1::int)"
  shows "((psi ^ r mod q) * (c ^ r mod q)) mod q = 1 mod q"
proof -
  have "((psi ^ r mod q) * (c ^ r mod q)) mod q = ((psi * c) ^ r) mod q"
    by (simp add: mod_mult_eq power_mult_distrib)
  also have "\<dots> = (((psi * c) mod q) ^ r) mod q" by (simp add: power_mod)
  finally show ?thesis by (simp add: assms)
qed

lemma power_two_inverse:
  assumes "1 < q" "q mod (2 * 2 ^ k) = (1::int)"
  shows "(2 ^ k * (- 2 * (q div (2 * 2 ^ k)))) mod q = 1 mod q"
proof -
  let ?j = "q div (2 * 2 ^ k)"
  have "q = (2 * 2 ^ k) * ?j + q mod (2 * 2 ^ k)" by simp
  then have "q = (2 * 2 ^ k) * ?j + 1" using assms(2) by simp
  then have "2 ^ k * (- 2 * ?j) = 1 + (- 1) * q" by (simp add: algebra_simps)
  then have "(2 ^ k * (- 2 * ?j)) mod q = (1 + (- 1) * q) mod q" by simp
  also have "\<dots> = 1 mod q" by (rule mod_mult_self1)
  finally show ?thesis .
qed

lemma round_trip_lists:
  assumes q: "1 < q" and n: "(2 ^ k * c) mod q = 1 mod q"
    and inv: "\<And>x. x < 2 ^ k \<Longrightarrow> (T ! x * Ti ! x) mod q = 1 mod q"
    and len: "length xs = 2 ^ k" and res: "residues q xs"
  shows "map (\<lambda>v. (v * c) mod q) (gs_stages q Ti k 1 (ct_stages q T k 1 xs)) = xs"
proof -
  let ?ys = "ct_stages q T k 1 xs"
  have "residues q ?ys" using q res by (intro residues_ct_stages) simp_all
  then have "gs_stages q Ti k 1 ?ys = gs_stages q Ti (0 + k) 1 (map (\<lambda>v. (1 * v) mod q) ?ys)"
    by (simp only: residues_map_mod) simp
  also have "\<dots> = gs_stages q Ti (0 + k) 1
      (map (\<lambda>v. (1 * v) mod q) (ct_stages q T k (2 ^ 0) xs))" by simp
  also have "\<dots> = gs_stages q Ti 0 (2 ^ k) (map (\<lambda>v. (2 ^ k * 1 * v) mod q) xs)"
    using inv len by (intro stages_round_trip) simp_all
  finally have g: "gs_stages q Ti k 1 ?ys = map (\<lambda>v. (2 ^ k * v) mod q) xs" by simp
  have "((2 ^ k * v) mod q * c) mod q = v" if "v \<in> set xs" for v
  proof -
    have "((2 ^ k * v) mod q * c) mod q = ((2 ^ k * v) * c) mod q"
      by (simp only: mod_mult_left_eq)
    also have "\<dots> = (v * 2 ^ k * c) mod q" by (simp add: mult.commute)
    also have "\<dots> = v mod q" by (rule mod_cancel_unit[OF n])
    also have "\<dots> = v" using res that by (simp add: residues_def)
    finally show ?thesis .
  qed
  then show ?thesis unfolding g by (simp add: map_idI)
qed

lemma is_prime_gt_1: "is_prime q \<Longrightarrow> 1 < q"
  by (simp add: is_prime_def)

lemma primitive_root_unit:
  assumes "1 < q" "primitive_root psi (2 * 2 ^ k) q"
  shows "(psi * psi ^ (2 * 2 ^ k - 1)) mod q = 1 mod q"
proof -
  have "0 < (2::nat) * 2 ^ k" by simp
  then have "psi * psi ^ (2 * 2 ^ k - 1) = psi ^ (2 * 2 ^ k)"
    by (metis power_minus_mult mult.commute)
  with assms show ?thesis by (simp add: primitive_root_def one_mod)
qed

lemma transforms_round_trip:
  assumes q: "1 < q" and m: "q mod (2 * 2 ^ k) = 1"
    and T: "length T = 2 ^ k" "length Ti = 2 ^ k"
      "\<And>x. x < 2 ^ k \<Longrightarrow> (T ! x * Ti ! x) mod q = 1 mod q"
    and xs: "length xs = 2 ^ k" "residues q xs"
    and h: "a < length h" "tf < length h" "ti < length h" "h ! a = xs" "h ! tf = T" "h ! ti = Ti"
  shows "\<exists>h1 h2. speedup_FNTT h a q tf = Inr (length h, h1)
           \<and> speedup_INTT h1 (length h) q ti = Inr (length h1, h2)
           \<and> h2 ! length h1 = xs"
proof -
  have q0: "q \<noteq> 0" using q by simp
  let ?ys = "ct_stages q T k 1 xs"
  let ?h1 = "h @ [?ys]"
  have f: "speedup_FNTT h a q tf = Inr (length h, ?h1)"
    using speedup_FNTT_run[OF q0 h(1,2), of k] xs(1) T(1) h(4,5) by simp
  from pow_mod_inverse[OF _ power_two_inverse[OF q m]] q
  obtain c where c: "pow_mod (2 ^ k) (- 1) q = Inr c" "(2 ^ k * c) mod q = 1 mod q" by auto
  have h1: "length h < length ?h1" "ti < length ?h1" "length (?h1 ! length h) = 2 ^ k"
    "2 ^ k \<le> length (?h1 ! ti)" "pow_mod (int (2 ^ k)) (- 1) q = Inr c"
    using h(3,6) T(2) xs(1) c(1) by (simp_all add: nth_append)
  have "speedup_INTT ?h1 (length h) q ti =
     Inr (length ?h1, ?h1 @ [map (\<lambda>v. (v * c) mod q)
                               (gs_stages q (?h1 ! ti) k 1 (?h1 ! length h))])"
    by (rule speedup_INTT_run[OF q0 h1])
  moreover have "?h1 ! ti = Ti" "?h1 ! length h = ?ys" using h(3,6) by (simp_all add: nth_append)
  ultimately have i: "speedup_INTT ?h1 (length h) q ti =
     Inr (length ?h1, ?h1 @ [map (\<lambda>v. (v * c) mod q) (gs_stages q Ti k 1 ?ys)])"
    by simp
  have r: "map (\<lambda>v. (v * c) mod q) (gs_stages q Ti k 1 ?ys) = xs"
    by (rule round_trip_lists[OF q c(2) T(3) xs])
  have "(?h1 @ [xs]) ! length ?h1 = xs" by (rule nth_append_length)
  with f i show ?thesis unfolding r by blast
qed

text \<open>
  C1.  Let \<open>n = 2 ^ k\<close>, \<open>q\<close> a prime with \<open>q mod (2 * n) = 1\<close>, \<open>psi\<close> a primitive \<open>2 * n\<close>-th root
  of unity modulo \<open>q\<close> and \<open>xs\<close> a list of \<open>n\<close> residues.  Then the script builds the two
  bit-reversed tables, and in every store that holds \<open>xs\<close> and the two tables the forward
  transform of \<open>xs\<close> returns, the inverse transform of its result returns, and the list it
  returns is \<open>xs\<close>.
\<close>

theorem ntt_round_trip:
  assumes "is_prime q" and "q mod (2 * 2 ^ k) = 1" and "primitive_root psi (2 * 2 ^ k) q"
    and "length xs = 2 ^ k" and "residues q xs"
  shows "\<exists>T Ti. usage_tables (2 ^ k) q psi = Inr (T, Ti)
     \<and> (\<forall>h a tf ti. a < length h \<and> tf < length h \<and> ti < length h
            \<and> h ! a = xs \<and> h ! tf = T \<and> h ! ti = Ti \<longrightarrow>
          (\<exists>h1 h2. speedup_FNTT h a q tf = Inr (length h, h1)
             \<and> speedup_INTT h1 (length h) q ti = Inr (length h1, h2)
             \<and> h2 ! length h1 = xs))"
proof -
  have q: "1 < q" by (rule is_prime_gt_1[OF assms(1)])
  from usage_tables_run[OF q primitive_root_unit[OF q assms(3)], of k]
  obtain T Ti psi_inv where t: "usage_tables (2 ^ k) q psi = Inr (T, Ti)"
    "length T = 2 ^ k" "length Ti = 2 ^ k" "(psi * psi_inv) mod q = 1"
    "\<forall>x<2 ^ k. T ! x = psi ^ reverse_bits k x mod q
                    \<and> Ti ! x = psi_inv ^ reverse_bits k x mod q" by blast
  have p: "(T ! x * Ti ! x) mod q = 1 mod q" if "x < 2 ^ k" for x
    using t(5) that table_products[OF t(4)] by simp
  have "\<exists>h1 h2. speedup_FNTT h a q tf = Inr (length h, h1)
             \<and> speedup_INTT h1 (length h) q ti = Inr (length h1, h2)
             \<and> h2 ! length h1 = xs"
    if "a < length h" "tf < length h" "ti < length h" "h ! a = xs" "h ! tf = T" "h ! ti = Ti"
    for h a tf ti
    by (rule transforms_round_trip[OF q assms(2) t(2,3) p assms(4,5) that])
  with t(1) show ?thesis by blast
qed

lemma is_prime_17: "is_prime 17"
proof -
  have "{2..<17::int} = {2..16}" by force
  also have "\<dots> = set [2..16]" by (simp only: set_upto)
  finally show ?thesis by (simp add: is_prime_def upto.simps)
qed

lemma primitive_root_2_8_17: "primitive_root 2 (2 * 2 ^ 2) 17"
  by (simp add: primitive_root_def atLeastLessThan_upt upt_rec)

lemma inv_mod_2_17: "pow_mod 2 (- 1) 17 = Inr 9"
  by (simp add: pow_mod_def inv_mod_def upto.simps)

lemma power_table_2: "power_table 4 2 17 = [1, 2, 4, 8]" "power_table 4 9 17 = [1, 9, 13, 15]"
  by (simp_all add: power_table_def upt_rec eval_nat_numeral)

lemma bit_reverse_order_4: "bit_reverse_order [a, b, c, d] = Inr [a, c, b, d]"
  by (simp add: bit_reverse_order_def num_bits_of_def py_bin_def bin_str.simps bin_digit_def
      bit_reverse_step_def rev_index_def zfill_def int_base2_def upt_rec Let_def)

lemma usage_tables_4_17: "usage_tables (2 ^ 2) 17 2 = Inr ([1, 4, 2, 8], [1, 13, 9, 15])"
  by (simp add: usage_tables_def inv_mod_2_17 power_table_2 bit_reverse_order_4)

theorem ntt_round_trip_witness:
  "is_prime 17 \<and> (17::int) mod (2 * 2 ^ 2) = 1 \<and> primitive_root 2 (2 * 2 ^ 2) 17
   \<and> length [1, 2, 3, 4 :: int] = 2 ^ 2 \<and> residues 17 [1, 2, 3, 4]
   \<and> usage_tables (2 ^ 2) 17 2 = Inr ([1, 4, 2, 8], [1, 13, 9, 15])
   \<and> (\<exists>h1 h2. speedup_FNTT [[1, 2, 3, 4], [1, 4, 2, 8], [1, 13, 9, 15]] 0 17 1
                  = Inr (length [[1, 2, 3, 4], [1, 4, 2, 8], [1, 13, 9, 15 :: int]], h1)
         \<and> speedup_INTT h1 (length [[1, 2, 3, 4], [1, 4, 2, 8], [1, 13, 9, 15 :: int]]) 17 2
                  = Inr (length h1, h2)
         \<and> h2 ! length h1 = [1, 2, 3, 4])"
proof -
  let ?H = "[[1, 2, 3, 4], [1, 4, 2, 8], [1, 13, 9, 15 :: int]]"
  have m: "(17::int) mod (2 * 2 ^ 2) = 1" by simp
  have l: "length [1, 2, 3, 4 :: int] = 2 ^ 2" by simp
  have r: "residues 17 [1, 2, 3, 4]" by (simp add: residues_def)
  from ntt_round_trip[OF is_prime_17 m primitive_root_2_8_17 l r]
  obtain T Ti where t: "usage_tables (2 ^ 2) 17 2 = Inr (T, Ti)"
    and a: "\<And>h a tf ti. a < length h \<and> tf < length h \<and> ti < length h
            \<and> h ! a = [1, 2, 3, 4] \<and> h ! tf = T \<and> h ! ti = Ti \<Longrightarrow>
          (\<exists>h1 h2. speedup_FNTT h a 17 tf = Inr (length h, h1)
             \<and> speedup_INTT h1 (length h) 17 ti = Inr (length h1, h2)
             \<and> h2 ! length h1 = [1, 2, 3, 4])"
    by blast
  from t have T: "T = [1, 4, 2, 8]" "Ti = [1, 13, 9, 15]"
    unfolding usage_tables_4_17 by simp_all
  have "0 < length ?H \<and> 1 < length ?H \<and> 2 < length ?H
      \<and> ?H ! 0 = [1, 2, 3, 4] \<and> ?H ! 1 = T \<and> ?H ! 2 = Ti"
    unfolding T by simp
  from a[OF this] is_prime_17 m primitive_root_2_8_17 l r usage_tables_4_17
  show ?thesis by blast
qed

subsection \<open>The transforms multiply polynomials\<close>

lemma is_prime_dvd_mult:
  assumes "is_prime p" "p dvd a * b"
  shows "p dvd a \<or> p dvd b"
proof (cases "p dvd a")
  case True
  then show ?thesis by simp
next
  case False
  have p: "1 < p" using assms(1) by (simp add: is_prime_def)
  have "coprime p a"
  proof (rule coprimeI)
    fix c assume c: "c dvd p" "c dvd a"
    let ?d = "\<bar>c\<bar>"
    have d: "?d dvd p" "?d dvd a" using c by simp_all
    have "c \<noteq> 0" using c(1) p by auto
    then have d0: "0 < ?d" by simp
    have dp: "?d \<le> p" using d(1) p by (intro zdvd_imp_le) simp_all
    have "?d \<noteq> p" using d(2) False by auto
    with dp have "?d < p" by simp
    moreover have "\<not> (2 \<le> ?d \<and> ?d < p)"
      using assms(1) d(1) unfolding is_prime_def by (metis atLeastLessThan_iff)
    ultimately have "?d = 1" using d0 by linarith
    then show "is_unit c" by simp
  qed
  with assms(2) have "p dvd b" by (simp add: coprime_dvd_mult_right_iff)
  then show ?thesis by simp
qed

lemma root_half:
  assumes "is_prime q" "primitive_root psi (2 * n) q" "0 < n"
  shows "psi ^ n mod q = (- 1) mod q"
proof -
  let ?y = "psi ^ n"
  have q: "1 < q" using assms(1) by (simp add: is_prime_def)
  have "?y * ?y = psi ^ (2 * n)" by (simp add: power_add[symmetric] mult_2)
  then have "(?y * ?y) mod q = 1 mod q"
    using assms(2) q by (simp add: primitive_root_def one_mod)
  then have "q dvd ?y * ?y - 1" by (simp add: mod_eq_dvd_iff)
  moreover have "?y * ?y - 1 = (?y - 1) * (?y + 1)" by (simp add: algebra_simps)
  ultimately have "q dvd ?y - 1 \<or> q dvd ?y + 1"
    using is_prime_dvd_mult[OF assms(1)] by simp
  moreover have "\<not> q dvd ?y - 1"
  proof
    assume "q dvd ?y - 1"
    then have "?y mod q = 1 mod q" by (simp add: mod_eq_dvd_iff)
    moreover have "n \<in> {1..<2 * n}" using assms(3) by simp
    ultimately show False using assms(2) q unfolding primitive_root_def
      by (metis one_mod)
  qed
  ultimately have "q dvd ?y - (- 1)" by simp
  then show ?thesis by (simp only: mod_eq_dvd_iff)
qed

lemma reverse_bits_double:
  assumes "y < 2 ^ k" "1 \<le> y"
  shows "2 * reverse_bits k y = (y mod 2) * 2 ^ k + reverse_bits k (y div 2)"
proof (cases k)
  case 0
  with assms show ?thesis by simp
next
  case (Suc j)
  have z: "y div 2 < 2 ^ j" using assms(1) Suc by simp
  then have z': "y div 2 < 2 ^ Suc j" by simp
  have a: "reverse_bits (Suc j) y = (y mod 2) * 2 ^ j + reverse_bits j (y div 2)"
    by (rule reverse_bits_Suc)
  have b: "reverse_bits (Suc j) (y div 2) = 2 * reverse_bits j (y div 2)"
    using reverse_bits_top[OF z'] z by simp
  show ?thesis unfolding Suc a b by (simp add: algebra_simps)
qed

lemma sum_mod_cong:
  assumes "\<And>x. x \<in> A \<Longrightarrow> f x mod q = g x mod (q::int)"
  shows "sum f A mod q = sum g A mod q"
proof -
  have "sum f A mod q = (\<Sum>x\<in>A. f x mod q) mod q" by (simp add: mod_sum_eq)
  also have "(\<Sum>x\<in>A. f x mod q) = (\<Sum>x\<in>A. g x mod q)" by (rule sum.cong) (simp_all add: assms)
  also have "(\<Sum>x\<in>A. g x mod q) mod q = sum g A mod q" by (simp add: mod_sum_eq)
  finally show ?thesis .
qed

lemma table_squares:
  assumes T: "\<And>x. x < 2 ^ k \<Longrightarrow> T ! x = psi ^ reverse_bits k x mod q"
    and half: "psi ^ (2 ^ k) mod q = (- 1) mod q"
    and y: "1 \<le> y" "y < 2 ^ k"
  shows "(T ! y * T ! y) mod q = block_root T y mod q"
proof -
  let ?r = "reverse_bits k (y div 2)"
  have z: "y div 2 < 2 ^ k" using y(2) by simp
  have "(T ! y * T ! y) mod q = (psi ^ reverse_bits k y * psi ^ reverse_bits k y) mod q"
    by (simp add: T[OF y(2)] mod_mult_eq)
  also have "psi ^ reverse_bits k y * psi ^ reverse_bits k y = psi ^ (2 * reverse_bits k y)"
    by (simp add: power_add[symmetric] mult_2)
  also have "2 * reverse_bits k y = (y mod 2) * 2 ^ k + ?r"
    by (rule reverse_bits_double[OF y(2,1)])
  finally have e: "(T ! y * T ! y) mod q = psi ^ ((y mod 2) * 2 ^ k + ?r) mod q" .
  show ?thesis
  proof (cases "even y")
    case True
    then have "y mod 2 = 0" by presburger
    with e True show ?thesis by (simp add: block_root_def T[OF z])
  next
    case False
    then have "y mod 2 = 1" by presburger
    with e have "(T ! y * T ! y) mod q = (psi ^ (2 ^ k) * psi ^ ?r) mod q"
      by (simp add: power_add)
    also have "\<dots> = ((psi ^ (2 ^ k) mod q) * psi ^ ?r) mod q"
      by (simp only: mod_mult_left_eq)
    also have "\<dots> = ((- 1) * psi ^ ?r) mod q"
      unfolding half by (simp only: mod_mult_left_eq)
    also have "\<dots> = (- (psi ^ ?r mod q)) mod q"
      by (simp add: mod_minus_eq)
    finally show ?thesis using False by (simp add: block_root_def T[OF z])
  qed
qed

lemma sum_even_odd:
  "(\<Sum>l<2 * m. f l) = (\<Sum>l<m. f (2 * l) + f (2 * l + 1))" for f :: "nat \<Rightarrow> int"
  by (induction m) simp_all

lemma stride_eval_split:
  "stride_eval xs t (2 * m) S j
     = stride_eval xs (2 * t) m (S * S) j + S * stride_eval xs (2 * t) m (S * S) (j + t)"
proof -
  have "stride_eval xs t (2 * m) S j
      = (\<Sum>l<m. xs ! (j + (2 * l) * t) * S ^ (2 * l) + xs ! (j + (2 * l + 1) * t) * S ^ (2 * l + 1))"
    unfolding stride_eval_def by (rule sum_even_odd)
  also have "\<dots> = (\<Sum>l<m. xs ! (j + l * (2 * t)) * (S * S) ^ l
                     + S * (xs ! (j + t + l * (2 * t)) * (S * S) ^ l))"
  proof (rule sum.cong[OF refl])
    fix l
    have p: "S ^ (2 * l) = (S * S) ^ l" by (simp add: power_mult power2_eq_square)
    have i1: "j + (2 * l) * t = j + l * (2 * t)" by simp
    have i2: "j + (2 * l + 1) * t = j + t + l * (2 * t)" by (simp add: algebra_simps)
    show "xs ! (j + (2 * l) * t) * S ^ (2 * l) + xs ! (j + (2 * l + 1) * t) * S ^ (2 * l + 1)
       = xs ! (j + l * (2 * t)) * (S * S) ^ l + S * (xs ! (j + t + l * (2 * t)) * (S * S) ^ l)"
      unfolding i1 i2 by (simp add: p)
  qed
  also have "\<dots> = stride_eval xs (2 * t) m (S * S) j + S * stride_eval xs (2 * t) m (S * S) (j + t)"
    unfolding stride_eval_def by (simp add: sum.distrib sum_distrib_left)
  finally show ?thesis .
qed

lemma stride_eval_cong:
  assumes "c mod q = c' mod q"
  shows "stride_eval xs t m c j mod q = stride_eval xs t m c' j mod q"
  unfolding stride_eval_def
proof (rule sum_mod_cong)
  fix l
  have "c ^ l mod q = c' ^ l mod q" by (metis assms power_mod)
  then show "(xs ! (j + l * t) * c ^ l) mod q = (xs ! (j + l * t) * c' ^ l) mod q"
    by (metis mod_mult_right_eq)
qed

lemma mod_butterfly_plus:
  assumes "u mod q = a mod q" "v mod q = b mod (q::int)"
  shows "(u + v * S) mod q = (a + S * b) mod q"
proof -
  have "(v * S) mod q = (S * b) mod q"
    using assms(2) by (metis mod_mult_left_eq mult.commute)
  with assms(1) show ?thesis by (rule mod_add_cong)
qed

lemma mod_butterfly_minus:
  assumes "u mod q = a mod q" "v mod q = b mod (q::int)"
  shows "(u - v * S) mod q = (a - S * b) mod q"
proof -
  have "(v * S) mod q = (S * b) mod q"
    using assms(2) by (metis mod_mult_left_eq mult.commute)
  with assms(1) show ?thesis by (rule mod_diff_cong)
qed

lemma stride_eval_minus:
  "stride_eval xs t (2 * m) (- S) j
     = stride_eval xs (2 * t) m (S * S) j - S * stride_eval xs (2 * t) m (S * S) (j + t)"
  using stride_eval_split[of xs t m "- S" j] by simp

lemma ct_stage_inv:
  assumes t: "0 < t" and len: "length ys = 2 * t * m"
    and inv: "stage_inv q T xs m (2 * t) ys"
    and sq: "\<And>i. i < m \<Longrightarrow> (T ! (m + i) * T ! (m + i)) mod q = block_root T (m + i) mod q"
  shows "stage_inv q T xs (2 * m) t (ct_stage q T m t ys)"
  unfolding stage_inv_def
proof (intro allI impI)
  fix i' j assume i': "i' < 2 * m" and j: "j < t"
  let ?i = "i' div 2"
  let ?S = "T ! (m + ?i)"
  let ?e0 = "stride_eval xs (2 * t) m (?S * ?S) j"
  let ?e1 = "stride_eval xs (2 * t) m (?S * ?S) (j + t)"
  have i: "?i < m" using i' by simp
  have c: "block_root T (m + ?i) mod q = (?S * ?S) mod q" using sq[OF i] by simp
  have jt: "j + t < 2 * t" using j by simp
  have y0: "ys ! (?i * (2 * t) + j) mod q = ?e0 mod q"
    using inv i j stride_eval_cong[OF c] unfolding stage_inv_def by simp
  have y1: "ys ! (?i * (2 * t) + (j + t)) mod q = ?e1 mod q"
    using inv i jt stride_eval_cong[OF c] unfolding stage_inv_def by simp
  have bound: "2 * t * Suc ?i \<le> 2 * t * m" using i by (intro mult_le_mono2) simp
  show "ct_stage q T m t ys ! (i' * t + j) mod q
      = stride_eval xs t (2 * m) (block_root T (2 * m + i')) j mod q"
  proof (cases "even i'")
    case True
    then have e: "i' = 2 * ?i" by simp
    let ?x = "?i * (2 * t) + j"
    have x: "i' * t + j = ?x" by (subst e) simp
    have a: "2 * t * ?i \<le> ?x" by simp
    have b: "?x < 2 * t * Suc ?i" using j by simp
    have xl: "?x < length ys" using b bound len by linarith
    have m: "?x mod (2 * t) < t" using block_div_mod(2)[OF a b] j by simp
    have d: "?x div (2 * t) = ?i" by (rule block_div_mod(1)[OF a b])
    have r: "block_root T (2 * m + i') = ?S" using True by (simp add: block_root_def)
    have "ct_stage q T m t ys ! ?x = (ys ! ?x + ys ! (?x + t) * ?S) mod q"
      using xl m d by (simp add: ct_stage_def nth_butterfly_stage)
    then have "ct_stage q T m t ys ! ?x mod q
        = (ys ! ?x + ys ! (?i * (2 * t) + (j + t)) * ?S) mod q"
      by (simp add: add.assoc)
    also have "\<dots> = (?e0 + ?S * ?e1) mod q"
      by (rule mod_butterfly_plus[OF y0 y1])
    finally show ?thesis unfolding x r stride_eval_split by simp
  next
    case False
    then have e: "i' = 2 * ?i + 1" by presburger
    let ?x = "?i * (2 * t) + t + j"
    have x: "i' * t + j = ?x" by (subst e) (simp add: algebra_simps)
    have a: "2 * t * ?i \<le> ?x" by simp
    have b: "?x < 2 * t * Suc ?i" using j by simp
    have xl: "?x < length ys" using b bound len by linarith
    have m: "\<not> ?x mod (2 * t) < t" using block_div_mod(2)[OF a b] by simp
    have d: "?x div (2 * t) = ?i" by (rule block_div_mod(1)[OF a b])
    have r: "block_root T (2 * m + i') = - ?S"
      using False by (subst e) (simp add: block_root_def)
    have xt: "?x - t = ?i * (2 * t) + j" by simp
    have xx: "?x = ?i * (2 * t) + (j + t)" by simp
    have "ct_stage q T m t ys ! ?x = (ys ! (?x - t) - ys ! ?x * ?S) mod q"
      using xl m d by (simp add: ct_stage_def nth_butterfly_stage)
    then have "ct_stage q T m t ys ! ?x mod q
        = (ys ! (?i * (2 * t) + j) - ys ! (?i * (2 * t) + (j + t)) * ?S) mod q"
      unfolding xt by (simp add: add.assoc add.commute)
    also have "\<dots> = (?e0 - ?S * ?e1) mod q"
      by (rule mod_butterfly_minus[OF y0 y1])
    finally show ?thesis unfolding x r stride_eval_minus by simp
  qed
qed

lemma ct_stages_inv:
  assumes sq: "\<And>y. 1 \<le> y \<Longrightarrow> y < n \<Longrightarrow> (T ! y * T ! y) mod q = block_root T y mod q"
  shows "length ys = m * 2 ^ s \<Longrightarrow> m * 2 ^ s = n \<Longrightarrow> 0 < m \<Longrightarrow>
     stage_inv q T xs m (2 ^ s) ys \<Longrightarrow> stage_inv q T xs n 1 (ct_stages q T s m ys)"
proof (induction s arbitrary: m ys)
  case 0
  then show ?case by simp
next
  case (Suc s)
  let ?ys = "ct_stage q T m (2 ^ s) ys"
  have a: "stage_inv q T xs (2 * m) (2 ^ s) ?ys"
  proof (rule ct_stage_inv)
    show "0 < (2::nat) ^ s" by simp
    show "length ys = 2 * 2 ^ s * m" using Suc.prems(1) by simp
    show "stage_inv q T xs m (2 * 2 ^ s) ys" using Suc.prems(4) by simp
    fix i assume i: "i < m"
    have "2 \<le> (2::nat) ^ Suc s" by simp
    then have "m * 2 \<le> m * 2 ^ Suc s" by (rule mult_le_mono2)
    with i Suc.prems(2) have "m + i < n" by linarith
    moreover have "1 \<le> m + i" using Suc.prems(3) by simp
    ultimately show "(T ! (m + i) * T ! (m + i)) mod q = block_root T (m + i) mod q"
      by (intro sq)
  qed
  have "stage_inv q T xs n 1 (ct_stages q T s (2 * m) ?ys)"
    using Suc.prems a by (intro Suc.IH) simp_all
  then show ?case by simp
qed

lemma ct_stages_eval:
  assumes sq: "\<And>y. 1 \<le> y \<Longrightarrow> y < 2 ^ k \<Longrightarrow> (T ! y * T ! y) mod q = block_root T y mod q"
    and len: "length xs = 2 ^ k" and x: "x < 2 ^ k"
  shows "ct_stages q T k 1 xs ! x mod q
     = (\<Sum>l<2 ^ k. xs ! l * block_root T (2 ^ k + x) ^ l) mod q"
proof -
  have "stage_inv q T xs 1 (2 ^ k) xs"
    by (simp add: stage_inv_def stride_eval_def)
  with len have "stage_inv q T xs (2 ^ k) 1 (ct_stages q T k 1 xs)"
    by (intro ct_stages_inv[OF sq]) simp_all
  with x show ?thesis by (simp add: stage_inv_def stride_eval_def)
qed

lemma block_root_power:
  assumes sq: "\<And>y. 1 \<le> y \<Longrightarrow> y < n \<Longrightarrow> (T ! y * T ! y) mod q = block_root T y mod q"
    and T0: "T ! 0 mod q = 1 mod q"
  shows "2 ^ a \<le> y \<Longrightarrow> y < 2 * 2 ^ a \<Longrightarrow> y < 2 * n \<Longrightarrow>
     block_root T y ^ (2 ^ a) mod q = (- 1) mod q"
proof (induction a arbitrary: y)
  case 0
  then have "y = 1" by simp
  then have "block_root T y = - (T ! 0)" by (simp add: block_root_def)
  moreover have "(- (T ! 0)) mod q = (- 1) mod q" by (metis T0 mod_minus_eq)
  ultimately show ?case by simp
next
  case (Suc a)
  let ?z = "y div 2"
  have z: "2 ^ a \<le> ?z" "?z < 2 * 2 ^ a" "?z < n" using Suc.prems by simp_all
  then have z1: "1 \<le> ?z" by (metis one_le_numeral one_le_power order_trans)
  have "block_root T y * block_root T y = T ! ?z * T ! ?z" by (simp add: block_root_def)
  then have "block_root T y ^ (2 ^ Suc a) = (T ! ?z * T ! ?z) ^ (2 ^ a)"
    by (simp add: power_mult power2_eq_square mult.commute)
  then have "block_root T y ^ (2 ^ Suc a) mod q = ((T ! ?z * T ! ?z) mod q) ^ (2 ^ a) mod q"
    by (simp add: power_mod)
  also have "\<dots> = block_root T ?z ^ (2 ^ a) mod q"
    by (simp add: sq[OF z1 z(3)] power_mod)
  also have "\<dots> = (- 1) mod q" using z by (intro Suc.IH) simp_all
  finally show ?case .
qed

lemma wrap_mod:
  assumes "i < n" "j < n" "\<not> i + j < (n::nat)"
  shows "(i + j) mod n = i + j - n"
proof -
  have "n \<le> i + j" using assms(3) by simp
  then have "(i + j) mod n = (i + j - n) mod n" by (rule le_mod_geq)
  moreover have "i + j - n < n" using assms by linarith
  ultimately show ?thesis by simp
qed

lemma rotate_back:
  assumes "i < n" "j < (n::nat)"
  shows "((i + j) mod n + n - i) mod n = j"
proof (cases "i + j < n")
  case True
  then have "(i + j) mod n + n - i = j + n" using assms by simp
  then show ?thesis using assms(2) by simp
next
  case False
  have "(i + j) mod n + n - i = j" unfolding wrap_mod[OF assms False] using assms False by linarith
  then show ?thesis using assms(2) by simp
qed

lemma rotate_forth:
  assumes "i < n" "j < (n::nat)"
  shows "(i + ((j + n - i) mod n)) mod n = j"
proof -
  have "(i + ((j + n - i) mod n)) mod n = (i + (j + n - i)) mod n"
    by (rule mod_add_right_eq)
  moreover have "i + (j + n - i) = j + n" using assms by linarith
  ultimately show ?thesis using assms(2) by simp
qed

lemma sum_rotate:
  fixes g :: "nat \<Rightarrow> int"
  assumes "i < n"
  shows "(\<Sum>k<n. g k) = (\<Sum>j<n. g ((i + j) mod n))"
proof (rule sum.reindex_bij_witness[of _ "\<lambda>j. (i + j) mod n" "\<lambda>k. (k + n - i) mod n"])
  fix j assume "j \<in> {..<n}"
  then have j: "j < n" by simp
  show "(i + ((j + n - i) mod n)) mod n = j" by (rule rotate_forth[OF assms j])
  show "(j + n - i) mod n \<in> {..<n}" using j by simp
  show "g ((i + (j + n - i) mod n) mod n) = g j" by (simp only: rotate_forth[OF assms j])
next
  fix j assume "j \<in> {..<n}"
  then have j: "j < n" by simp
  show "(i + j) mod n \<in> {..<n}" using j by simp
  show "((i + j) mod n + n - i) mod n = j" by (rule rotate_back[OF assms j])
qed

lemma negacyclic_term:
  fixes a b :: "nat \<Rightarrow> int"
  assumes w: "w ^ n mod q = (- 1) mod (q::int)" and i: "i < n" and j: "j < n"
  shows "((if i \<le> (i + j) mod n then a i * b ((i + j) mod n - i)
           else - (a i * b ((i + j) mod n + n - i))) * w ^ ((i + j) mod n)) mod q
       = (a i * b j * w ^ (i + j)) mod q"
proof (cases "i + j < n")
  case True
  then show ?thesis by simp
next
  case False
  note m = wrap_mod[OF i j False]
  let ?k = "i + j - n"
  have k1: "\<not> i \<le> ?k" using False i j by linarith
  have k2: "?k + n - i = j" using False i j by linarith
  have k3: "i + j = ?k + n" using False i j by linarith
  have "(a i * b j * w ^ (i + j)) mod q = ((a i * b j * w ^ ?k) * w ^ n) mod q"
    by (subst k3) (simp only: power_add mult.assoc)
  also have "\<dots> = ((a i * b j * w ^ ?k) * (w ^ n mod q)) mod q"
    by (simp only: mod_mult_right_eq)
  also have "\<dots> = ((a i * b j * w ^ ?k) * (- 1)) mod q"
    unfolding w by (simp only: mod_mult_right_eq)
  finally have "(a i * b j * w ^ (i + j)) mod q = (- (a i * b j) * w ^ ?k) mod q" by simp
  then show ?thesis unfolding m using k1 k2 by simp
qed

lemma negacyclic_product:
  fixes a b :: "nat \<Rightarrow> int"
  assumes w: "w ^ n mod q = (- 1) mod (q::int)"
  shows "((\<Sum>i<n. a i * w ^ i) * (\<Sum>j<n. b j * w ^ j)) mod q
       = (\<Sum>k<n. (\<Sum>i<n. if i \<le> k then a i * b (k - i) else - (a i * b (k + n - i))) * w ^ k) mod q"
proof -
  let ?c = "\<lambda>i k. if i \<le> k then a i * b (k - i) else - (a i * b (k + n - i))"
  have "(\<Sum>k<n. (\<Sum>i<n. ?c i k) * w ^ k) = (\<Sum>k<n. \<Sum>i<n. ?c i k * w ^ k)"
    by (simp add: sum_distrib_right)
  also have "\<dots> = (\<Sum>i<n. \<Sum>k<n. ?c i k * w ^ k)" by (rule sum.swap)
  also have "\<dots> = (\<Sum>i<n. \<Sum>j<n. ?c i ((i + j) mod n) * w ^ ((i + j) mod n))"
    by (intro sum.cong refl sum_rotate) simp
  finally have r: "(\<Sum>k<n. (\<Sum>i<n. ?c i k) * w ^ k)
      = (\<Sum>i<n. \<Sum>j<n. ?c i ((i + j) mod n) * w ^ ((i + j) mod n))" .
  have l: "(\<Sum>i<n. a i * w ^ i) * (\<Sum>j<n. b j * w ^ j) = (\<Sum>i<n. \<Sum>j<n. a i * b j * w ^ (i + j))"
    by (simp add: sum_product power_add algebra_simps)
  have "(\<Sum>i<n. \<Sum>j<n. ?c i ((i + j) mod n) * w ^ ((i + j) mod n)) mod q
      = (\<Sum>i<n. \<Sum>j<n. a i * b j * w ^ (i + j)) mod q"
  proof (rule sum_mod_cong)
    fix i assume "i \<in> {..<n}"
    then have i: "i < n" by simp
    show "(\<Sum>j<n. ?c i ((i + j) mod n) * w ^ ((i + j) mod n)) mod q
        = (\<Sum>j<n. a i * b j * w ^ (i + j)) mod q"
    proof (rule sum_mod_cong)
      fix j assume "j \<in> {..<n}"
      then have j: "j < n" by simp
      show "(?c i ((i + j) mod n) * w ^ ((i + j) mod n)) mod q = (a i * b j * w ^ (i + j)) mod q"
        by (rule negacyclic_term[OF w i j])
    qed
  qed
  then show ?thesis unfolding l r by simp
qed

lemma length_negacyclic_conv [simp]: "length (negacyclic_conv A B q) = length A"
  by (simp add: negacyclic_conv_def)

lemma nth_negacyclic_conv:
  assumes "k < length A"
  shows "negacyclic_conv A B q ! k =
     (\<Sum>i<length A. if i \<le> k then A ! i * B ! (k - i)
                       else - (A ! i * B ! (k + length A - i))) mod q"
proof -
  have "[0..<length A] ! k = k" using assms by simp
  then show ?thesis unfolding negacyclic_conv_def using assms by (simp only: nth_map length_upt diff_zero)
qed

lemma residues_negacyclic_conv: "0 < q \<Longrightarrow> residues q (negacyclic_conv A B q)"
  by (auto simp: residues_def negacyclic_conv_def)

lemma residues_mod: "residues q xs \<Longrightarrow> x < length xs \<Longrightarrow> xs ! x mod q = xs ! x"
  by (simp add: residues_def)

lemma forward_of_convolution:
  assumes q: "0 < q"
    and sq: "\<And>y. 1 \<le> y \<Longrightarrow> y < 2 ^ k \<Longrightarrow> (T ! y * T ! y) mod q = block_root T y mod q"
    and T0: "T ! 0 mod q = 1 mod q"
    and len: "length xs = 2 ^ k" "length ys = 2 ^ k"
  shows "ct_stages q T k 1 (negacyclic_conv xs ys q)
     = map (\<lambda>(x, y). (x * y) mod q) (zip (ct_stages q T k 1 xs) (ct_stages q T k 1 ys))"
proof (rule nth_equalityI)
  show "length (ct_stages q T k 1 (negacyclic_conv xs ys q))
      = length (map (\<lambda>(x, y). (x * y) mod q) (zip (ct_stages q T k 1 xs) (ct_stages q T k 1 ys)))"
    using len by simp
next
  fix x assume "x < length (ct_stages q T k 1 (negacyclic_conv xs ys q))"
  then have x: "x < 2 ^ k" using len by simp
  let ?n = "2 ^ k :: nat"
  let ?w = "block_root T (?n + x)"
  let ?c = "\<lambda>l. \<Sum>i<?n. if i \<le> l then xs ! i * ys ! (l - i) else - (xs ! i * ys ! (l + ?n - i))"
  let ?zs = "negacyclic_conv xs ys q"
  have b: "?n \<le> ?n + x" "?n + x < 2 * ?n" using x by linarith+
  have w: "?w ^ ?n mod q = (- 1) mod q"
    by (rule block_root_power[OF sq T0 b b(2)])
  have lz: "length ?zs = 2 ^ k" using len by simp
  have "residues q (ct_stages q T k 1 ?zs)"
    using q by (intro residues_ct_stages residues_negacyclic_conv)
  then have "ct_stages q T k 1 ?zs ! x = ct_stages q T k 1 ?zs ! x mod q"
    using x lz by (simp add: residues_mod)
  also have "\<dots> = (\<Sum>l<?n. ?zs ! l * ?w ^ l) mod q"
    by (rule ct_stages_eval[OF sq lz x])
  also have "\<dots> = (\<Sum>l<?n. ?c l * ?w ^ l) mod q"
  proof (rule sum_mod_cong)
    fix l assume "l \<in> {..<?n}"
    then have "l < length xs" using len by simp
    from nth_negacyclic_conv[OF this, of ys q]
    have "?zs ! l = ?c l mod q" unfolding len(1) .
    then show "(?zs ! l * ?w ^ l) mod q = (?c l * ?w ^ l) mod q"
      by (simp add: mod_mult_left_eq)
  qed
  also have "\<dots> = ((\<Sum>i<?n. xs ! i * ?w ^ i) * (\<Sum>j<?n. ys ! j * ?w ^ j)) mod q"
    by (rule negacyclic_product[OF w, symmetric])
  also have "\<dots> = (((\<Sum>i<?n. xs ! i * ?w ^ i) mod q) * ((\<Sum>j<?n. ys ! j * ?w ^ j) mod q)) mod q"
    by (simp only: mod_mult_eq)
  also have "\<dots> = ((ct_stages q T k 1 xs ! x mod q) * (ct_stages q T k 1 ys ! x mod q)) mod q"
    by (simp only: ct_stages_eval[OF sq len(1) x] ct_stages_eval[OF sq len(2) x])
  also have "\<dots> = (ct_stages q T k 1 xs ! x * ct_stages q T k 1 ys ! x) mod q"
    by (simp only: mod_mult_eq)
  finally show "ct_stages q T k 1 ?zs ! x
      = map (\<lambda>(x, y). (x * y) mod q) (zip (ct_stages q T k 1 xs) (ct_stages q T k 1 ys)) ! x"
    using x len by simp
qed

lemma usage_multiply_run:
  assumes q: "1 < q" and m: "q mod (2 * 2 ^ k) = 1"
    and T: "length T = 2 ^ k" "length Ti = 2 ^ k"
      "\<And>x. x < 2 ^ k \<Longrightarrow> (T ! x * Ti ! x) mod q = 1 mod q"
    and sq: "\<And>y. 1 \<le> y \<Longrightarrow> y < 2 ^ k \<Longrightarrow> (T ! y * T ! y) mod q = block_root T y mod q"
    and T0: "T ! 0 mod q = 1 mod q"
    and len: "length xs = 2 ^ k" "length ys = 2 ^ k"
    and h: "A < length h" "B < length h" "tf < length h" "ti < length h"
      "h ! A = xs" "h ! B = ys" "h ! tf = T" "h ! ti = Ti"
  shows "\<exists>p h'. usage_multiply h A B q tf ti = Inr (p, h') \<and> h' ! p = negacyclic_conv xs ys q"
proof -
  have q0: "q \<noteq> 0" "0 < q" using q by simp_all
  let ?X = "ct_stages q T k 1 xs"
  let ?Y = "ct_stages q T k 1 ys"
  let ?P = "map (\<lambda>(x, y). (x * y) mod q) (zip ?X ?Y)"
  let ?Z = "negacyclic_conv xs ys q"
  let ?h1 = "h @ [?X]"
  let ?h2 = "?h1 @ [?Y]"
  let ?h3 = "?h2 @ [?P]"
  have f1: "speedup_FNTT h A q tf = Inr (length h, ?h1)"
    using speedup_FNTT_run[OF q0(1) h(1,3), of k] len(1) T(1) h(5,7) by simp
  have g1: "B < length ?h1" "tf < length ?h1" "length (?h1 ! B) = 2 ^ k"
    "2 ^ k \<le> length (?h1 ! tf)"
    using h len T(1) by (simp_all add: nth_append)
  have "speedup_FNTT ?h1 B q tf = Inr (length ?h1, ?h1 @ [ct_stages q (?h1 ! tf) k 1 (?h1 ! B)])"
    by (rule speedup_FNTT_run[OF q0(1) g1])
  moreover have "?h1 ! tf = T" "?h1 ! B = ys" using h by (simp_all add: nth_append)
  ultimately have f2: "speedup_FNTT ?h1 B q tf = Inr (length ?h1, ?h2)" by simp
  have e1: "?h2 ! length h = ?X" by (simp add: nth_append)
  have e2: "?h2 ! length ?h1 = ?Y" by (rule nth_append_length)
  have pm: "pointwise_mult ?X ?Y q = Inr ?P" using q0(1) by (simp add: pointwise_mult_def)
  from pow_mod_inverse[OF _ power_two_inverse[OF q m]] q
  obtain c where c: "pow_mod (2 ^ k) (- 1) q = Inr c" "(2 ^ k * c) mod q = 1 mod q" by auto
  have lP: "length ?P = 2 ^ k" using len by simp
  have g3: "length ?h2 < length ?h3" "ti < length ?h3" "length (?h3 ! length ?h2) = 2 ^ k"
    "2 ^ k \<le> length (?h3 ! ti)" "pow_mod (int (2 ^ k)) (- 1) q = Inr c"
    using h(4,8) T(2) lP c(1) by (simp_all add: nth_append)
  have "speedup_INTT ?h3 (length ?h2) q ti =
     Inr (length ?h3, ?h3 @ [map (\<lambda>v. (v * c) mod q)
                               (gs_stages q (?h3 ! ti) k 1 (?h3 ! length ?h2))])"
    by (rule speedup_INTT_run[OF q0(1) g3])
  moreover have "?h3 ! ti = Ti" using h(4,8) by (simp add: nth_append)
  moreover have "?h3 ! length ?h2 = ?P" by (rule nth_append_length)
  ultimately have i: "speedup_INTT ?h3 (length ?h2) q ti =
     Inr (length ?h3, ?h3 @ [map (\<lambda>v. (v * c) mod q) (gs_stages q Ti k 1 ?P)])"
    by simp
  have P: "?P = ct_stages q T k 1 ?Z"
    by (rule forward_of_convolution[OF q0(2) sq T0 len, symmetric])
  have lZ: "length ?Z = 2 ^ k" using len by simp
  have r: "map (\<lambda>v. (v * c) mod q) (gs_stages q Ti k 1 ?P) = ?Z"
    unfolding P by (rule round_trip_lists[OF q c(2) T(3) lZ residues_negacyclic_conv[OF q0(2)]])
  have u: "usage_multiply h A B q tf ti = Inr (length ?h3, ?h3 @ [?Z])"
    unfolding usage_multiply_def f1 sum.case prod.case f2 e1 e2 pm i r ..
  have "(?h3 @ [?Z]) ! length ?h3 = ?Z" by (rule nth_append_length)
  with u show ?thesis by blast
qed

text \<open>
  C2.  Let \<open>n = 2 ^ k\<close>, \<open>q\<close> a prime with \<open>q mod (2 * n) = 1\<close>, \<open>psi\<close> a primitive \<open>2 * n\<close>-th root
  of unity modulo \<open>q\<close> and \<open>xs\<close>, \<open>ys\<close> two lists of length \<open>n\<close>.  Then the script builds the two
  tables, and in every store that holds the two lists and the two tables the pipeline
  (forward transform of each list, product entry by entry modulo \<open>q\<close>, inverse transform)
  returns the negative-wrapped convolution of \<open>xs\<close> and \<open>ys\<close> modulo \<open>q\<close>.  This holds for every
  \<open>k\<close>, so for the lengths 4, 8 and 16; the entries need not be reduced.
\<close>

theorem ntt_convolution:
  assumes "is_prime q" and "q mod (2 * 2 ^ k) = 1" and "primitive_root psi (2 * 2 ^ k) q"
    and "length xs = 2 ^ k" and "length ys = 2 ^ k"
  shows "\<exists>T Ti. usage_tables (2 ^ k) q psi = Inr (T, Ti)
     \<and> (\<forall>h A B tf ti. A < length h \<and> B < length h \<and> tf < length h \<and> ti < length h
            \<and> h ! A = xs \<and> h ! B = ys \<and> h ! tf = T \<and> h ! ti = Ti \<longrightarrow>
          (\<exists>p h'. usage_multiply h A B q tf ti = Inr (p, h')
             \<and> h' ! p = negacyclic_conv xs ys q))"
proof -
  have q: "1 < q" by (rule is_prime_gt_1[OF assms(1)])
  from usage_tables_run[OF q primitive_root_unit[OF q assms(3)], of k]
  obtain T Ti psi_inv where t: "usage_tables (2 ^ k) q psi = Inr (T, Ti)"
    "length T = 2 ^ k" "length Ti = 2 ^ k" "(psi * psi_inv) mod q = 1"
    "\<forall>x<2 ^ k. T ! x = psi ^ reverse_bits k x mod q
                    \<and> Ti ! x = psi_inv ^ reverse_bits k x mod q" by blast
  have p: "(T ! x * Ti ! x) mod q = 1 mod q" if "x < 2 ^ k" for x
    using t(5) that table_products[OF t(4)] by simp
  have Tx: "T ! x = psi ^ reverse_bits k x mod q" if "x < 2 ^ k" for x
    using t(5) that by simp
  have half: "psi ^ (2 ^ k) mod q = (- 1) mod q"
    by (rule root_half[OF assms(1,3)]) simp
  have sq: "(T ! y * T ! y) mod q = block_root T y mod q" if "1 \<le> y" "y < 2 ^ k" for y
    by (rule table_squares[OF Tx half that])
  have T0: "T ! 0 mod q = 1 mod q" using Tx[of 0] by (simp add: reverse_bits_zero)
  have "\<exists>p h'. usage_multiply h A B q tf ti = Inr (p, h') \<and> h' ! p = negacyclic_conv xs ys q"
    if "A < length h" "B < length h" "tf < length h" "ti < length h"
      "h ! A = xs" "h ! B = ys" "h ! tf = T" "h ! ti = Ti"
    for h A B tf ti
    by (rule usage_multiply_run[OF q assms(2) t(2,3) p sq T0 assms(4,5) that])
  with t(1) show ?thesis by blast
qed

lemma conv_example: "negacyclic_conv [1, 2, 3, 4] [5, 6, 7, 8] 17 = [12, 15, 2, 9]"
  by (simp add: negacyclic_conv_def upt_rec eval_nat_numeral)

theorem ntt_convolution_witness:
  "is_prime 17 \<and> (17::int) mod (2 * 2 ^ 2) = 1 \<and> primitive_root 2 (2 * 2 ^ 2) 17
   \<and> length [1, 2, 3, 4 :: int] = 2 ^ 2 \<and> length [5, 6, 7, 8 :: int] = 2 ^ 2
   \<and> usage_tables (2 ^ 2) 17 2 = Inr ([1, 4, 2, 8], [1, 13, 9, 15])
   \<and> (\<exists>p h'. usage_multiply [[1, 2, 3, 4], [5, 6, 7, 8], [1, 4, 2, 8], [1, 13, 9, 15]] 0 1 17 2 3
                  = Inr (p, h')
         \<and> h' ! p = [12, 15, 2, 9])"
proof -
  let ?H = "[[1, 2, 3, 4], [5, 6, 7, 8], [1, 4, 2, 8], [1, 13, 9, 15 :: int]]"
  have m: "(17::int) mod (2 * 2 ^ 2) = 1" by simp
  have l: "length [1, 2, 3, 4 :: int] = 2 ^ 2" "length [5, 6, 7, 8 :: int] = 2 ^ 2" by simp_all
  from ntt_convolution[OF is_prime_17 m primitive_root_2_8_17 l]
  obtain T Ti where t: "usage_tables (2 ^ 2) 17 2 = Inr (T, Ti)"
    and a: "\<And>h A B tf ti. A < length h \<and> B < length h \<and> tf < length h \<and> ti < length h
            \<and> h ! A = [1, 2, 3, 4] \<and> h ! B = [5, 6, 7, 8] \<and> h ! tf = T \<and> h ! ti = Ti \<Longrightarrow>
          (\<exists>p h'. usage_multiply h A B 17 tf ti = Inr (p, h')
             \<and> h' ! p = negacyclic_conv [1, 2, 3, 4] [5, 6, 7, 8] 17)"
    by blast
  from t have T: "T = [1, 4, 2, 8]" "Ti = [1, 13, 9, 15]"
    unfolding usage_tables_4_17 by simp_all
  have "0 < length ?H \<and> 1 < length ?H \<and> 2 < length ?H \<and> 3 < length ?H
      \<and> ?H ! 0 = [1, 2, 3, 4] \<and> ?H ! 1 = [5, 6, 7, 8] \<and> ?H ! 2 = T \<and> ?H ! 3 = Ti"
    unfolding T by simp
  from a[OF this] is_prime_17 m primitive_root_2_8_17 l usage_tables_4_17
  show ?thesis unfolding conv_example by blast
qed

end
